theory Spec2Isabelle
  imports Main
begin

section \<open>Data model (models.py)\<close>

text \<open>
  \<^verbatim>\<open>Comment\<close> of models.py. The field \<^verbatim>\<open>id\<close> is called \<open>id_c\<close> here, since \<open>id\<close> is
  the identity function of HOL. Timestamps (\<^verbatim>\<open>created_utc\<close>, seconds since the epoch)
  are integers: the program only compares them.
\<close>

record comment =
  id_c :: string
  author :: string
  body :: string
  created_utc :: int
  parent_id :: string
  permalink :: string
  score :: int
  is_submitter :: bool

text \<open>\<^verbatim>\<open>QAPair\<close> of models.py.\<close>

record qa_pair =
  question :: comment
  answers :: "comment list"

section \<open>Listing nodes and the tree walker (reddit_client.py, public_reddit_client.py)\<close>

text \<open>
  The \<^verbatim>\<open>data\<close> dictionary of a \<^verbatim>\<open>t1\<close> thing; \<open>None\<close> is a missing key, which
  \<^verbatim>\<open>data.get(key, default)\<close> replaces by the default.
\<close>

record comment_data =
  d_id :: "string option"
  d_author :: "string option"
  d_body :: "string option"
  d_created_utc :: "int option"
  d_parent_id :: "string option"
  d_permalink :: "string option"
  d_score :: "int option"
  d_is_submitter :: "bool option"

text \<open>
  A thing of a listing, by its \<^verbatim>\<open>kind\<close>: a comment (\<^verbatim>\<open>t1\<close>) with its data and its
  \<^verbatim>\<open>replies\<close> (\<open>Some\<close> of the children of the reply listing when \<^verbatim>\<open>replies\<close> is a
  non-empty dictionary, \<open>None\<close> when it is missing, the empty string or not a
  dictionary), a \<^verbatim>\<open>more\<close> node with its \<^verbatim>\<open>children\<close> ids, or a thing of any other kind.
\<close>

datatype thing =
  T1 comment_data "thing list option"
| More "string list"
| OtherKind

record walk_state =
  comments :: "comment list"
  more_ids :: "string list"
  fetched_ids :: "string set"

definition get_default :: "'a option \<Rightarrow> 'a \<Rightarrow> 'a" where
  "get_default v d = (case v of None \<Rightarrow> d | Some x \<Rightarrow> x)"

definition make_comment :: "string \<Rightarrow> comment_data \<Rightarrow> comment" where
  "make_comment comment_id d =
     \<lparr> id_c = comment_id,
       author = get_default (d_author d) ''[deleted]'',
       body = get_default (d_body d) '''',
       created_utc = get_default (d_created_utc d) 0,
       parent_id = get_default (d_parent_id d) '''',
       permalink = get_default (d_permalink d) '''',
       score = get_default (d_score d) 0,
       is_submitter = get_default (d_is_submitter d) False \<rparr>"

text \<open>
  \<^verbatim>\<open>_process_comment_listing\<close>, the same text in both clients. The three
  accumulators the Python mutates in place are the fields of the state.
\<close>

fun process_comment_listing :: "thing list \<Rightarrow> walk_state \<Rightarrow> walk_state"
  and process_thing :: "thing \<Rightarrow> walk_state \<Rightarrow> walk_state"
  and process_replies :: "thing list option \<Rightarrow> walk_state \<Rightarrow> walk_state"
where
  "process_comment_listing [] st = st"
| "process_comment_listing (thing # children) st =
     process_comment_listing children (process_thing thing st)"
| "process_thing (T1 d replies) st =
     (case d_id d of
        None \<Rightarrow> st
      | Some comment_id \<Rightarrow>
          if comment_id \<noteq> [] \<and> comment_id \<notin> fetched_ids st then
            process_replies replies
              (st\<lparr> fetched_ids := insert comment_id (fetched_ids st),
                   comments := comments st @ [make_comment comment_id d] \<rparr>)
          else st)"
| "process_thing (More children_ids) st =
     st\<lparr> more_ids := more_ids st @
            filter (\<lambda>child_id. child_id \<noteq> [] \<and> child_id \<notin> fetched_ids st) children_ids \<rparr>"
| "process_thing OtherKind st = st"
| "process_replies None st = st"
| "process_replies (Some reply_children) st = process_comment_listing reply_children st"

section \<open>The question/answer correlator (archiver.py)\<close>

text \<open>
  \<^verbatim>\<open>str.lower\<close> on the ASCII letters: a capital letter (codes 65 to 90) gets its bit of
  value 32 set, which adds 32 to its code; every other character is left as it is.
\<close>

definition lower_char :: "char \<Rightarrow> char" where
  "lower_char c =
     (if 65 \<le> (of_char c :: nat) \<and> (of_char c :: nat) \<le> 90
      then (case c of Char b0 b1 b2 b3 b4 b5 b6 b7 \<Rightarrow> Char b0 b1 b2 b3 b4 True b6 b7)
      else c)"

definition lower :: "string \<Rightarrow> string" where
  "lower s = map lower_char s"

definition startswith :: "string \<Rightarrow> string \<Rightarrow> bool" where
  "startswith s prefix = (take (length prefix) s = prefix)"

text \<open>\<^verbatim>\<open>body in ("[deleted]", "[removed]")\<close>\<close>

definition is_deleted_body :: "string \<Rightarrow> bool" where
  "is_deleted_body b = (b = ''[deleted]'' \<or> b = ''[removed]'')"

text \<open>The lookup \<^verbatim>\<open>comment_map\<close>: a later comment overwrites an earlier one of the same id.\<close>

definition build_comment_map :: "comment list \<Rightarrow> (string \<rightharpoonup> comment)" where
  "build_comment_map cs = fold (\<lambda>c m. m(id_c c \<mapsto> c)) cs Map.empty"

text \<open>
  \<^verbatim>\<open>existing.answers.append(comment)\<close>, where \<^verbatim>\<open>existing\<close> is the first pair of the
  list whose question has the parent's id: the pair is updated where it stands.
\<close>

fun append_to_existing :: "string \<Rightarrow> comment \<Rightarrow> qa_pair list \<Rightarrow> qa_pair list" where
  "append_to_existing qid c [] = []"
| "append_to_existing qid c (qa # qas) =
     (if id_c (question qa) = qid
      then qa\<lparr> answers := answers qa @ [c] \<rparr> # qas
      else qa # append_to_existing qid c qas)"

definition add_answer :: "comment \<Rightarrow> comment \<Rightarrow> qa_pair list \<Rightarrow> qa_pair list" where
  "add_answer parent c qa_pairs =
     (case find (\<lambda>qa. id_c (question qa) = id_c parent) qa_pairs of
        Some existing \<Rightarrow> append_to_existing (id_c parent) c qa_pairs
      | None \<Rightarrow> qa_pairs @ [\<lparr> question = parent, answers = [c] \<rparr>])"

text \<open>The body of the loop over \<^verbatim>\<open>submission.comments\<close>.\<close>

definition visit_comment ::
  "string list \<Rightarrow> (string \<rightharpoonup> comment) \<Rightarrow> bool \<Rightarrow> comment \<Rightarrow> qa_pair list \<Rightarrow> qa_pair list" where
  "visit_comment answer_authors_lower comment_map include_deleted c qa_pairs =
     (if author c \<noteq> [] \<and> lower (author c) \<in> set answer_authors_lower then
        if \<not> include_deleted \<and> is_deleted_body (body c) then qa_pairs
        else if startswith (parent_id c) ''t1_'' then
          (case comment_map (drop 3 (parent_id c)) of
             None \<Rightarrow> qa_pairs
           | Some parent \<Rightarrow>
               if \<not> include_deleted \<and> is_deleted_body (body parent) then qa_pairs
               else add_answer parent c qa_pairs)
        else qa_pairs
      else qa_pairs)"

definition collect_qa_pairs :: "comment list \<Rightarrow> string list \<Rightarrow> bool \<Rightarrow> qa_pair list" where
  "collect_qa_pairs cs answer_authors include_deleted =
     fold (visit_comment (map lower answer_authors) (build_comment_map cs) include_deleted) cs []"

text \<open>
  \<^verbatim>\<open>extract_qa_pairs\<close> on the comments of the submission. \<^verbatim>\<open>list.sort(key=...)\<close>
  is a stable sort by the key, as \<open>sort_key\<close> is.
\<close>

definition extract_qa_pairs :: "comment list \<Rightarrow> string list \<Rightarrow> bool \<Rightarrow> qa_pair list" where
  "extract_qa_pairs cs answer_authors include_deleted =
     map (\<lambda>qa. qa\<lparr> answers := sort_key created_utc (answers qa) \<rparr>)
       (sort_key (\<lambda>qa. created_utc (question qa))
          (collect_qa_pairs cs answer_authors include_deleted))"

subsection \<open>Predicates used to state the correlator's properties\<close>

text \<open>
  \<open>answers_to al cm inc c parent\<close>: the loop of \<^verbatim>\<open>extract_qa_pairs\<close> records the comment
  \<open>c\<close> as an answer to \<open>parent\<close>. \<open>keyed_by_id\<close>: every entry of the lookup is stored under
  its own id. \<open>good_pairs\<close>: the invariant of the loop.
\<close>

definition answers_to ::
  "string list \<Rightarrow> (string \<rightharpoonup> comment) \<Rightarrow> bool \<Rightarrow> comment \<Rightarrow> comment \<Rightarrow> bool" where
  "answers_to al cm inc c parent =
     (author c \<noteq> [] \<and> lower (author c) \<in> set al \<and>
      (inc \<or> \<not> is_deleted_body (body c)) \<and>
      startswith (parent_id c) ''t1_'' \<and>
      cm (drop 3 (parent_id c)) = Some parent \<and>
      (inc \<or> \<not> is_deleted_body (body parent)))"

definition keyed_by_id :: "(string \<rightharpoonup> comment) \<Rightarrow> bool" where
  "keyed_by_id cm = (\<forall>k v. cm k = Some v \<longrightarrow> id_c v = k)"

definition good_pair ::
  "string list \<Rightarrow> (string \<rightharpoonup> comment) \<Rightarrow> bool \<Rightarrow> qa_pair \<Rightarrow> bool" where
  "good_pair al cm inc qa =
     (cm (id_c (question qa)) = Some (question qa) \<and> answers qa \<noteq> [] \<and>
      (\<forall>a \<in> set (answers qa). answers_to al cm inc a (question qa)))"

definition good_pairs ::
  "string list \<Rightarrow> (string \<rightharpoonup> comment) \<Rightarrow> bool \<Rightarrow> qa_pair list \<Rightarrow> bool" where
  "good_pairs al cm inc qas =
     ((\<forall>qa \<in> set qas. good_pair al cm inc qa) \<and> distinct (map (\<lambda>qa. id_c (question qa)) qas))"

text \<open>A comment with the fields the correlator reads; the others are left at their defaults.\<close>

definition simple_comment :: "string \<Rightarrow> string \<Rightarrow> string \<Rightarrow> int \<Rightarrow> string \<Rightarrow> comment" where
  "simple_comment i a b t p =
     \<lparr> id_c = i, author = a, body = b, created_utc = t, parent_id = p,
       permalink = [], score = 0, is_submitter = False \<rparr>"

section \<open>The request gate (\<^verbatim>\<open>_request\<close> of both clients)\<close>

text \<open>
  What the program reads of an HTTP reply: the status code, the \<^verbatim>\<open>Retry-After\<close> header and
  the decoded body (\<open>None\<close> when \<^verbatim>\<open>response.json()\<close> raises). \<open>NoReply\<close> is a call of the
  session that raises instead of returning a response.

  The \<^verbatim>\<open>Retry-After\<close> header is absent, or a string that \<^verbatim>\<open>int\<close> turns into the integer \<open>n\<close>
  (\<open>Seconds n\<close>, negative numbers too), or a string on which \<^verbatim>\<open>int\<close> raises \<^verbatim>\<open>ValueError\<close>
  (\<open>Unreadable\<close>: \<^verbatim>\<open>1.5\<close>, an HTTP date, the empty string).
\<close>

datatype retry_after_header = Absent | Seconds int | Unreadable

datatype 'j reply =
  Reply int retry_after_header "'j option"
| NoReply

datatype error =
  ApiError int
| ValueError
| OverflowError
| RequestError
| JSONDecodeError
| AuthenticationError
| CallbackError

text \<open>
  What a run does besides computing its result, in order: a renewal of the token, the pacing
  step \<^verbatim>\<open>_rate_limit\<close>, a request sent, the line printed on a 429, a sleep, and the two
  lines the expansion loop of the authenticated client prints.
\<close>

datatype 'r event =
  Authenticate
| RateLimit
| Send 'r
| RateLimited int
| Sleep int
| Expanding nat nat
| Warning error

text \<open>\<^verbatim>\<open>int(response.headers.get("Retry-After", 60))\<close>\<close>

definition retry_delay :: "retry_after_header \<Rightarrow> error + int" where
  "retry_delay h =
     (case h of Absent \<Rightarrow> Inr 60 | Seconds n \<Rightarrow> Inr n | Unreadable \<Rightarrow> Inl ValueError)"

text \<open>
  \<^verbatim>\<open>time.sleep(retry_after)\<close> on an integer: a negative length raises \<^verbatim>\<open>ValueError\<close>, and a
  length above 9223372036 seconds, which does not fit the 64-bit count of nanoseconds,
  raises \<^verbatim>\<open>OverflowError\<close>; \<open>None\<close> is a sleep that returns.
\<close>

definition time_sleep :: "int \<Rightarrow> error option" where
  "time_sleep secs =
     (if secs < 0 then Some ValueError
      else if secs > 9223372036 then Some OverflowError
      else None)"

text \<open>
  \<^verbatim>\<open>PublicRedditClient._request\<close>. The replies of the server come as a list, in the order
  of the requests; the function returns what \<^verbatim>\<open>_request\<close> returns or raises (\<open>None\<close> when the
  list ends before the call does), the events of the call and the replies left over. The
  recursion of \<^verbatim>\<open>_request\<close> is the recursion of the function; the recursion limit of the
  interpreter is not part of the model.
\<close>

fun request_public ::
  "'j reply list \<Rightarrow> string \<Rightarrow> (error + 'j) option \<times> string event list \<times> 'j reply list" where
  "request_public [] url = (None, [], [])"
| "request_public (NoReply # script) url =
     (Some (Inl RequestError), [RateLimit, Send url], script)"
| "request_public (Reply status_code h payload # script) url =
     (if status_code = 429 then
        (case retry_delay h of
           Inl e \<Rightarrow> (Some (Inl e), [RateLimit, Send url], script)
         | Inr retry_after \<Rightarrow>
             (case time_sleep retry_after of
                Some e \<Rightarrow>
                  (Some (Inl e), [RateLimit, Send url, RateLimited retry_after], script)
              | None \<Rightarrow>
                  (case request_public script url of
                     (res, evs, rest) \<Rightarrow>
                       (res,
                        [RateLimit, Send url, RateLimited retry_after, Sleep retry_after] @ evs,
                        rest))))
      else if status_code \<noteq> 200 then
        (Some (Inl (ApiError status_code)), [RateLimit, Send url], script)
      else
        (case payload of
           None \<Rightarrow> (Some (Inl JSONDecodeError), [RateLimit, Send url], script)
         | Some j \<Rightarrow> (Some (Inr j), [RateLimit, Send url], script)))"

text \<open>
  \<^verbatim>\<open>RedditClient._request\<close>. Each turn of the script also says how the check of the token
  at the start of the call goes: the token is still valid, \<^verbatim>\<open>authenticate\<close> renews it, or
  \<^verbatim>\<open>authenticate\<close> raises (the reply of that turn is then not looked at).
\<close>

datatype token_check = TokenValid | TokenRenewed | RenewalFails

record api_call =
  http_method :: string
  endpoint :: string
  params :: "(string \<times> string) list"

definition token_events :: "token_check \<Rightarrow> api_call event list" where
  "token_events tc = (if tc = TokenRenewed then [Authenticate] else [])"

fun request_auth ::
  "(token_check \<times> 'j reply) list \<Rightarrow> api_call \<Rightarrow>
   (error + 'j) option \<times> api_call event list \<times> (token_check \<times> 'j reply) list" where
  "request_auth [] call = (None, [], [])"
| "request_auth ((tc, r) # script) call =
     (if tc = RenewalFails then (Some (Inl AuthenticationError), [Authenticate], script)
      else
        (case r of
           NoReply \<Rightarrow> (Some (Inl RequestError), token_events tc @ [RateLimit, Send call], script)
         | Reply status_code h payload \<Rightarrow>
             if status_code = 429 then
               (case retry_delay h of
                  Inl e \<Rightarrow> (Some (Inl e), token_events tc @ [RateLimit, Send call], script)
                | Inr retry_after \<Rightarrow>
                    (case time_sleep retry_after of
                       Some e \<Rightarrow>
                         (Some (Inl e),
                          token_events tc @ [RateLimit, Send call, RateLimited retry_after],
                          script)
                     | None \<Rightarrow>
                         (case request_auth script call of
                            (res, evs, rest) \<Rightarrow>
                              (res,
                               token_events tc @
                               [RateLimit, Send call, RateLimited retry_after, Sleep retry_after] @
                               evs,
                               rest))))
             else if status_code \<noteq> 200 then
               (Some (Inl (ApiError status_code)), token_events tc @ [RateLimit, Send call], script)
             else
               (case payload of
                  None \<Rightarrow>
                    (Some (Inl JSONDecodeError), token_events tc @ [RateLimit, Send call], script)
                | Some j \<Rightarrow> (Some (Inr j), token_events tc @ [RateLimit, Send call], script))))"

section \<open>Fetching all comments (\<^verbatim>\<open>get_all_comments\<close> of both clients)\<close>

text \<open>
  The two shapes of decoded body the clients read. The reply to the listing request is an
  array of listings, here the \<^verbatim>\<open>children\<close> of each. The reply to a \<^verbatim>\<open>morechildren\<close> request is
  a dictionary: \<open>MoreChildren (Some things)\<close> when it has \<^verbatim>\<open>json\<close> and \<^verbatim>\<open>json.data\<close>, with
  the \<^verbatim>\<open>things\<close> of the data (the empty list when that key is missing), and
  \<open>MoreChildren None\<close> when \<^verbatim>\<open>json\<close> or \<^verbatim>\<open>data\<close> is missing.
\<close>

datatype json =
  Listings "thing list list"
| MoreChildren "thing list option"

text \<open>
  \<^verbatim>\<open>if len(response) > 1: ... response[1]["data"]["children"]\<close>; a dictionary with the one
  key \<^verbatim>\<open>json\<close> has length 1.
\<close>

definition top_level_children :: "json \<Rightarrow> thing list option" where
  "top_level_children response =
     (case response of
        Listings ls \<Rightarrow> if length ls > 1 then Some (ls ! 1) else None
      | MoreChildren _ \<Rightarrow> None)"

text \<open>
  \<^verbatim>\<open>if "json" in r and "data" in r["json"]: things = r["json"]["data"].get("things", [])\<close>;
  an array of listings does not hold the string \<^verbatim>\<open>json\<close>.
\<close>

definition expansion_things :: "json \<Rightarrow> thing list option" where
  "expansion_things more_response =
     (case more_response of
        Listings _ \<Rightarrow> None
      | MoreChildren things \<Rightarrow> things)"

definition empty_state :: walk_state where
  "empty_state = \<lparr> comments = [], more_ids = [], fetched_ids = {} \<rparr>"

text \<open>
  The three accumulators after the walk over the top-level listing, which both clients run
  on the reply to the listing request.
\<close>

definition initial_walk :: "json \<Rightarrow> walk_state" where
  "initial_walk response =
     (case top_level_children response of
        None \<Rightarrow> empty_state
      | Some children \<Rightarrow> process_comment_listing children empty_state)"

fun join :: "string \<Rightarrow> string list \<Rightarrow> string" where
  "join sep [] = []"
| "join sep [x] = x"
| "join sep (x # y # ys) = x @ sep @ join sep (y # ys)"

subsection \<open>The authenticated client\<close>

definition listing_call :: "string \<Rightarrow> api_call" where
  "listing_call submission_id =
     \<lparr> http_method = ''GET'', endpoint = ''/comments/'' @ submission_id,
       params = [(''limit'', ''500''), (''depth'', ''100'')] \<rparr>"

definition morechildren_call :: "string \<Rightarrow> string list \<Rightarrow> api_call" where
  "morechildren_call submission_id batch =
     \<lparr> http_method = ''GET'', endpoint = ''/api/morechildren'',
       params = [(''api_type'', ''json''), (''link_id'', ''t3_'' @ submission_id),
                 (''children'', join '','' batch)] \<rparr>"

text \<open>
  The loop \<^verbatim>\<open>while more_ids:\<close> of \<^verbatim>\<open>RedditClient.get_all_comments\<close>. The server's turns come
  as one script for each call of \<^verbatim>\<open>_request\<close>, in the order of the calls; the result is
  \<open>None\<close> when the scripts end before the loop does. The loop can run forever: a reply can
  name new ids each time.
\<close>

fun expand_auth ::
  "(token_check \<times> json reply) list list \<Rightarrow> string \<Rightarrow> walk_state \<times> api_call event list \<Rightarrow>
   (walk_state \<times> api_call event list) option" where
  "expand_auth [] submission_id (st, tr) = (if more_ids st = [] then Some (st, tr) else None)"
| "expand_auth (script # calls) submission_id (st, tr) =
     (if more_ids st = [] then Some (st, tr)
      else
        let batch = take 100 (more_ids st);
            st1 = st\<lparr> more_ids := drop 100 (more_ids st) \<rparr>;
            tr1 = tr @ [Expanding (length batch) (length (more_ids st1))]
        in
          (case request_auth script (morechildren_call submission_id batch) of
             (None, evs, rest) \<Rightarrow> None
           | (Some (Inl e), evs, rest) \<Rightarrow>
               expand_auth calls submission_id (st1, tr1 @ evs @ [Warning e])
           | (Some (Inr more_response), evs, rest) \<Rightarrow>
               (case expansion_things more_response of
                  None \<Rightarrow> expand_auth calls submission_id (st1, tr1 @ evs)
                | Some things \<Rightarrow>
                    expand_auth calls submission_id
                      (process_comment_listing things st1, tr1 @ evs))))"

text \<open>\<^verbatim>\<open>RedditClient.get_all_comments\<close>: what it returns or raises, and its events.\<close>

definition get_all_comments_auth ::
  "(token_check \<times> json reply) list list \<Rightarrow> string \<Rightarrow>
   ((error + comment list) \<times> api_call event list) option" where
  "get_all_comments_auth calls submission_id =
     (case calls of
        [] \<Rightarrow> None
      | script # calls' \<Rightarrow>
          (case request_auth script (listing_call submission_id) of
             (None, evs, rest) \<Rightarrow> None
           | (Some (Inl e), evs, rest) \<Rightarrow> Some (Inl e, evs)
           | (Some (Inr response), evs, rest) \<Rightarrow>
               (case expand_auth calls' submission_id (initial_walk response, evs) of
                  None \<Rightarrow> None
                | Some (st, tr) \<Rightarrow> Some (Inr (comments st), tr))))"

subsection \<open>The public client\<close>

text \<open>
  The optional \<^verbatim>\<open>progress_callback\<close>: the function says whether the call returns (\<open>True\<close>)
  or raises.
\<close>

definition callback_returns :: "(nat \<Rightarrow> nat \<Rightarrow> bool) option \<Rightarrow> nat \<Rightarrow> nat \<Rightarrow> bool" where
  "callback_returns progress_callback n m =
     (case progress_callback of None \<Rightarrow> True | Some f \<Rightarrow> f n m)"

text \<open>
  The loop \<^verbatim>\<open>while more_ids and expansions_done < max_expansions:\<close> of
  \<^verbatim>\<open>PublicRedditClient.get_all_comments\<close>. \<open>server k batch\<close> is the reply to the request
  number \<open>k\<close> of the loop, sent for \<open>batch\<close>; the batches sent are collected in \<open>issued\<close>. The
  result is the state at the end of the loop, the batches sent and the counter.
\<close>

function expand_public ::
  "(nat \<Rightarrow> string list \<Rightarrow> json reply) \<Rightarrow> (nat \<Rightarrow> nat \<Rightarrow> bool) option \<Rightarrow>
   nat \<Rightarrow> string list list \<Rightarrow> walk_state \<Rightarrow> walk_state \<times> string list list \<times> nat" where
  "expand_public server progress_callback expansions_done issued st =
     (if more_ids st \<noteq> [] \<and> expansions_done < 20 then
        let batch = take 100 (more_ids st);
            st1 = st\<lparr> more_ids := drop 100 (more_ids st) \<rparr>;
            issued1 = issued @ [batch]
        in
          (case server (length issued) batch of
             NoReply \<Rightarrow> (st1, issued1, expansions_done)
           | Reply status_code h payload \<Rightarrow>
               if status_code = 200 then
                 (case payload of
                    None \<Rightarrow> (st1, issued1, expansions_done)
                  | Some data \<Rightarrow>
                      (case expansion_things data of
                         None \<Rightarrow> expand_public server progress_callback expansions_done issued1 st1
                       | Some things \<Rightarrow>
                           if callback_returns progress_callback
                                (length (comments (process_comment_listing things st1)))
                                (length (more_ids (process_comment_listing things st1)))
                           then expand_public server progress_callback (expansions_done + 1) issued1
                                  (process_comment_listing things st1)
                           else (process_comment_listing things st1, issued1, expansions_done + 1)))
               else (st1, issued1, expansions_done))
      else (st, issued, expansions_done))"
  by pat_completeness auto
termination
  by (relation "measures [\<lambda>(server, cb, done, issued, st). 20 - done,
                          \<lambda>(server, cb, done, issued, st). length (more_ids st)]")
     auto

definition comments_url :: "string \<Rightarrow> string" where
  "comments_url submission_id =
     ''https://www.reddit.com/comments/'' @ submission_id @ ''.json?limit=500&depth=100&sort=old''"

text \<open>
  \<^verbatim>\<open>PublicRedditClient.get_all_comments\<close>: \<open>script\<close> holds the replies to the listing request,
  \<open>server\<close> the replies to the requests of the loop.
\<close>

definition get_all_comments_public ::
  "json reply list \<Rightarrow> (nat \<Rightarrow> string list \<Rightarrow> json reply) \<Rightarrow> (nat \<Rightarrow> nat \<Rightarrow> bool) option \<Rightarrow>
   string \<Rightarrow> (error + comment list) option" where
  "get_all_comments_public script server progress_callback submission_id =
     (case request_public script (comments_url submission_id) of
        (None, evs, rest) \<Rightarrow> None
      | (Some (Inl e), evs, rest) \<Rightarrow> Some (Inl e)
      | (Some (Inr response), evs, rest) \<Rightarrow>
          (let st = initial_walk response
           in if callback_returns progress_callback (length (comments st)) (length (more_ids st))
              then Some (Inr (comments (fst (expand_public server progress_callback 0 [] st))))
              else Some (Inl CallbackError)))"

subsection \<open>Predicates used to state the walker's properties\<close>

text \<open>
  The invariant of the three accumulators: the comments collected have distinct ids, and
  the id of each is in \<^verbatim>\<open>fetched_ids\<close>.
\<close>

definition walk_inv :: "walk_state \<Rightarrow> bool" where
  "walk_inv st =
     (distinct (map id_c (comments st)) \<and> id_c ` set (comments st) \<subseteq> fetched_ids st)"

text \<open>The data of a comment node that carries an id and nothing else.\<close>

definition node_data :: "string \<Rightarrow> comment_data" where
  "node_data i =
     \<lparr> d_id = Some i, d_author = None, d_body = None, d_created_utc = None,
       d_parent_id = None, d_permalink = None, d_score = None, d_is_submitter = None \<rparr>"

subsection \<open>Functions used to state the gate's properties\<close>

text \<open>
  The requests sent and the sleeps of a list of events, in order; whether a reply is a 429;
  the headers on which the gate sleeps (the header is absent, or a number of seconds from 0
  to 9223372036) and the delay it then reads.
\<close>

fun sent :: "'r event list \<Rightarrow> 'r list" where
  "sent [] = []"
| "sent (Send r # evs) = r # sent evs"
| "sent (e # evs) = sent evs"



definition sleepable :: "retry_after_header \<Rightarrow> bool" where
  "sleepable h =
     (case h of Absent \<Rightarrow> True | Seconds n \<Rightarrow> 0 \<le> n \<and> n \<le> 9223372036 | Unreadable \<Rightarrow> False)"


subsection \<open>Inputs used in the examples of the fetch loops\<close>

text \<open>
  A hundred distinct marker ids (\<open>m\<close>, \<open>mm\<close>, \<open>mmm\<close>, ...), the server of the public
  endpoint that answers every expansion request with status 200 and a body without
  \<^verbatim>\<open>json.data\<close>, and the server that answers every one with one new comment.
\<close>

definition marker_ids :: "nat \<Rightarrow> string list" where
  "marker_ids n = map (\<lambda>k. replicate (Suc k) CHR ''m'') [0..<n]"

definition hollow_server :: "nat \<Rightarrow> string list \<Rightarrow> json reply" where
  "hollow_server k batch = Reply 200 Absent (Some (MoreChildren None))"

text \<open>A reply of status 200 whose body decodes but has no \<^verbatim>\<open>json.data\<close>.\<close>

definition hollow :: "json reply \<Rightarrow> bool" where
  "hollow r =
     (case r of
        Reply status_code h payload \<Rightarrow>
          status_code = 200 \<and> (case payload of None \<Rightarrow> False | Some data \<Rightarrow> expansion_things data = None)
      | NoReply \<Rightarrow> False)"

text \<open>
  The ids of the comment nodes of a listing, nested replies included, and the ids of the
  comment nodes that the replies of a list of scripts carry in a \<^verbatim>\<open>morechildren\<close> body.
\<close>

fun listing_comment_ids :: "thing list \<Rightarrow> string set"
  and thing_comment_ids :: "thing \<Rightarrow> string set"
  and replies_comment_ids :: "thing list option \<Rightarrow> string set"
where
  "listing_comment_ids [] = {}"
| "listing_comment_ids (thing # children) =
     thing_comment_ids thing \<union> listing_comment_ids children"
| "thing_comment_ids (T1 d replies) =
     (case d_id d of None \<Rightarrow> {} | Some i \<Rightarrow> {i}) \<union> replies_comment_ids replies"
| "thing_comment_ids (More children_ids) = {}"
| "thing_comment_ids OtherKind = {}"
| "replies_comment_ids None = {}"
| "replies_comment_ids (Some reply_children) = listing_comment_ids reply_children"

definition reply_comment_ids :: "json reply \<Rightarrow> string set" where
  "reply_comment_ids r =
     (case r of
        NoReply \<Rightarrow> {}
      | Reply status_code h payload \<Rightarrow>
          (case payload of
             None \<Rightarrow> {}
           | Some j \<Rightarrow>
               (case expansion_things j of
                  None \<Rightarrow> {}
                | Some things \<Rightarrow> listing_comment_ids things)))"

definition calls_comment_ids :: "(token_check \<times> json reply) list list \<Rightarrow> string set" where
  "calls_comment_ids calls =
     (\<Union>script \<in> set calls. \<Union>turn \<in> set script. reply_comment_ids (snd turn))"

section \<open>Properties of the correlator\<close>

lemmas correlator_defs =
  simple_comment_def extract_qa_pairs_def collect_qa_pairs_def visit_comment_def
  build_comment_map_def add_answer_def lower_def lower_char_def startswith_def
  is_deleted_body_def

lemma keyed_upd: "keyed_by_id m \<Longrightarrow> keyed_by_id (m(id_c c \<mapsto> c))"
  unfolding keyed_by_id_def by (simp split: if_splits)

lemma keyed_fold:
  "keyed_by_id m \<Longrightarrow> keyed_by_id (fold (\<lambda>c m. m(id_c c \<mapsto> c)) cs m)"
proof (induction cs arbitrary: m)
  case Nil
  then show ?case by simp
next
  case (Cons c cs)
  from Cons.prems have "keyed_by_id (m(id_c c \<mapsto> c))" by (rule keyed_upd)
  then have "keyed_by_id (fold (\<lambda>c m. m(id_c c \<mapsto> c)) cs (m(id_c c \<mapsto> c)))"
    by (rule Cons.IH)
  then show ?case by (simp only: fold_simps o_apply)
qed

lemma keyed_build: "keyed_by_id (build_comment_map cs)"
  unfolding build_comment_map_def
  by (rule keyed_fold) (simp add: keyed_by_id_def)

lemma visit_comment_cases:
  "visit_comment al cm inc c qas =
     (case cm (drop 3 (parent_id c)) of
        None \<Rightarrow> qas
      | Some parent \<Rightarrow> if answers_to al cm inc c parent then add_answer parent c qas else qas)"
  by (auto simp: visit_comment_def answers_to_def split: option.splits)

lemma questions_append_to_existing:
  "map question (append_to_existing q c qas) = map question qas"
  by (induction qas) simp_all

lemma find_question_id:
  "(find (\<lambda>qa. id_c (question qa) = q) qas = None) =
   (q \<notin> set (map (\<lambda>qa. id_c (question qa)) qas))"
  by (induction qas) auto

lemma questions_add_answer:
  "map question (add_answer parent c qas) =
     (if id_c parent \<in> set (map (\<lambda>qa. id_c (question qa)) qas)
      then map question qas else map question qas @ [parent])"
proof (cases "find (\<lambda>qa. id_c (question qa) = id_c parent) qas")
  case None
  with find_question_id [of "id_c parent" qas]
  have "id_c parent \<notin> set (map (\<lambda>qa. id_c (question qa)) qas)"
    by blast
  with None show ?thesis by (simp add: add_answer_def)
next
  case (Some e)
  then have "find (\<lambda>qa. id_c (question qa) = id_c parent) qas \<noteq> None" by simp
  with find_question_id [of "id_c parent" qas]
  have "id_c parent \<in> set (map (\<lambda>qa. id_c (question qa)) qas)"
    by blast
  with Some show ?thesis by (simp add: add_answer_def questions_append_to_existing)
qed

lemma ids_as_questions:
  "map (\<lambda>qa. id_c (question qa)) qas = map id_c (map question qas)"
  by simp

lemma distinct_add_answer:
  "distinct (map (\<lambda>qa. id_c (question qa)) qas) \<Longrightarrow>
   distinct (map (\<lambda>qa. id_c (question qa)) (add_answer parent c qas))"
  unfolding ids_as_questions questions_add_answer
  by simp

lemma good_append_to_existing:
  assumes "\<forall>qa \<in> set qas. good_pair al cm inc qa"
    and "answers_to al cm inc c parent" and "keyed_by_id cm"
  shows "\<forall>qa \<in> set (append_to_existing (id_c parent) c qas). good_pair al cm inc qa"
  using assms(1)
proof (induction qas)
  case Nil
  then show ?case by simp
next
  case (Cons qa qas)
  have par: "cm (id_c parent) = Some parent"
    using assms(2,3) by (auto simp: answers_to_def keyed_by_id_def)
  show ?case
  proof (cases "id_c (question qa) = id_c parent")
    case True
    from Cons.prems have "cm (id_c (question qa)) = Some (question qa)"
      by (simp add: good_pair_def)
    with True par have "question qa = parent" by simp
    with Cons.prems assms(2) True show ?thesis
      by (simp add: good_pair_def)
  next
    case False
    with Cons show ?thesis by simp
  qed
qed

lemma good_add_answer:
  assumes "\<forall>qa \<in> set qas. good_pair al cm inc qa"
    and "answers_to al cm inc c parent" and "keyed_by_id cm"
  shows "\<forall>qa \<in> set (add_answer parent c qas). good_pair al cm inc qa"
proof (cases "find (\<lambda>qa. id_c (question qa) = id_c parent) qas")
  case None
  have "cm (id_c parent) = Some parent"
    using assms(2,3) by (auto simp: answers_to_def keyed_by_id_def)
  with None assms(1,2) show ?thesis
    by (simp add: add_answer_def good_pair_def)
next
  case (Some e)
  with good_append_to_existing [OF assms] show ?thesis
    by (simp add: add_answer_def)
qed

lemma good_visit:
  assumes "good_pairs al cm inc qas" and "keyed_by_id cm"
  shows "good_pairs al cm inc (visit_comment al cm inc c qas)"
  using assms
  by (auto simp: good_pairs_def visit_comment_cases good_add_answer distinct_add_answer
           simp del: set_map split: option.splits)

lemma good_fold:
  assumes "keyed_by_id cm"
  shows "good_pairs al cm inc qas \<Longrightarrow> good_pairs al cm inc (fold (visit_comment al cm inc) cs qas)"
  by (induction cs arbitrary: qas) (simp_all add: good_visit assms)

lemma good_collect:
  "good_pairs (map lower aas) (build_comment_map cs) inc (collect_qa_pairs cs aas inc)"
  unfolding collect_qa_pairs_def
  by (rule good_fold [OF keyed_build]) (simp add: good_pairs_def)


lemma append_to_existing_keeps:
  "qa \<in> set qas \<Longrightarrow>
   \<exists>qa' \<in> set (append_to_existing q x qas).
      question qa' = question qa \<and> set (answers qa) \<subseteq> set (answers qa')"
  by (induction qas) auto

lemma add_answer_keeps:
  assumes "qa \<in> set qas"
  shows "\<exists>qa' \<in> set (add_answer parent x qas).
           question qa' = question qa \<and> set (answers qa) \<subseteq> set (answers qa')"
proof (cases "find (\<lambda>qa. id_c (question qa) = id_c parent) qas")
  case None
  with assms show ?thesis by (auto simp: add_answer_def)
next
  case (Some e)
  with append_to_existing_keeps [OF assms] show ?thesis by (simp add: add_answer_def)
qed

lemma visit_comment_keeps:
  assumes "qa \<in> set qas"
  shows "\<exists>qa' \<in> set (visit_comment al cm inc x qas).
           question qa' = question qa \<and> set (answers qa) \<subseteq> set (answers qa')"
proof (cases "visit_comment al cm inc x qas = qas")
  case True
  with assms show ?thesis by auto
next
  case False
  then obtain parent where "visit_comment al cm inc x qas = add_answer parent x qas"
    by (auto simp: visit_comment_cases split: option.splits if_splits)
  with add_answer_keeps [OF assms] show ?thesis by simp
qed

lemma fold_visit_keeps:
  "qa \<in> set qas \<Longrightarrow>
   \<exists>qa' \<in> set (fold (visit_comment al cm inc) xs qas).
      question qa' = question qa \<and> set (answers qa) \<subseteq> set (answers qa')"
proof (induction xs arbitrary: qa qas)
  case Nil
  then show ?case by auto
next
  case (Cons x xs)
  from visit_comment_keeps [OF Cons.prems] obtain qa1
    where qa1: "qa1 \<in> set (visit_comment al cm inc x qas)"
      "question qa1 = question qa" "set (answers qa) \<subseteq> set (answers qa1)"
    by blast
  from Cons.IH [OF qa1(1)] obtain qa2
    where "qa2 \<in> set (fold (visit_comment al cm inc) xs (visit_comment al cm inc x qas))"
      "question qa2 = question qa1" "set (answers qa1) \<subseteq> set (answers qa2)"
    by blast
  with qa1 show ?case by auto
qed

lemma append_to_existing_adds:
  "q \<in> set (map (\<lambda>qa. id_c (question qa)) qas) \<Longrightarrow>
   \<exists>qa \<in> set (append_to_existing q c qas). id_c (question qa) = q \<and> c \<in> set (answers qa)"
  by (induction qas) auto

lemma add_answer_adds_id:
  "\<exists>qa \<in> set (add_answer parent c qas). id_c (question qa) = id_c parent \<and> c \<in> set (answers qa)"
proof (cases "find (\<lambda>qa. id_c (question qa) = id_c parent) qas")
  case None
  then show ?thesis by (simp add: add_answer_def)
next
  case (Some e)
  then have "find (\<lambda>qa. id_c (question qa) = id_c parent) qas \<noteq> None" by simp
  with find_question_id [of "id_c parent" qas]
  have "id_c parent \<in> set (map (\<lambda>qa. id_c (question qa)) qas)" by blast
  from append_to_existing_adds [OF this] Some show ?thesis by (simp add: add_answer_def)
qed

lemma add_answer_adds:
  assumes "\<forall>qa \<in> set qas. good_pair al cm inc qa"
    and "answers_to al cm inc c parent" and "keyed_by_id cm"
  shows "\<exists>qa \<in> set (add_answer parent c qas). question qa = parent \<and> c \<in> set (answers qa)"
proof -
  from add_answer_adds_id obtain qa
    where qa: "qa \<in> set (add_answer parent c qas)" "id_c (question qa) = id_c parent"
      "c \<in> set (answers qa)"
    by blast
  from good_add_answer [OF assms] qa(1) have "cm (id_c (question qa)) = Some (question qa)"
    by (simp add: good_pair_def)
  moreover have "cm (id_c parent) = Some parent"
    using assms(2,3) by (auto simp: answers_to_def keyed_by_id_def)
  ultimately have "question qa = parent" using qa(2) by (metis option.inject)
  with qa show ?thesis by blast
qed

lemma fold_visit_adds:
  assumes "keyed_by_id cm" and "answers_to al cm inc c parent"
  shows "good_pairs al cm inc qas \<Longrightarrow> c \<in> set cs \<Longrightarrow>
    \<exists>qa \<in> set (fold (visit_comment al cm inc) cs qas). question qa = parent \<and> c \<in> set (answers qa)"
proof (induction cs arbitrary: qas)
  case Nil
  then show ?case by simp
next
  case (Cons x xs)
  have good': "good_pairs al cm inc (visit_comment al cm inc x qas)"
    using Cons.prems(1) assms(1) by (rule good_visit)
  show ?case
  proof (cases "c = x")
    case True
    have "visit_comment al cm inc c qas = add_answer parent c qas"
      using assms(2) by (simp add: visit_comment_cases answers_to_def)
    moreover from Cons.prems(1) have "\<forall>qa \<in> set qas. good_pair al cm inc qa"
      by (simp add: good_pairs_def)
    ultimately obtain qa where qa: "qa \<in> set (visit_comment al cm inc c qas)"
      "question qa = parent" "c \<in> set (answers qa)"
      using add_answer_adds [OF _ assms(2,1), of qas] by auto
    from fold_visit_keeps [OF qa(1), of al cm inc xs] qa(2,3) True show ?thesis
      by auto
  next
    case False
    with Cons.prems(2) have "c \<in> set xs" by simp
    from Cons.IH [OF good' this] show ?thesis by simp
  qed
qed

lemma collect_complete:
  assumes "c \<in> set cs"
    and "answers_to (map lower aas) (build_comment_map cs) inc c parent"
  shows "\<exists>qa \<in> set (collect_qa_pairs cs aas inc). question qa = parent \<and> c \<in> set (answers qa)"
  unfolding collect_qa_pairs_def
  by (rule fold_visit_adds [OF keyed_build assms(2) _ assms(1)]) (simp add: good_pairs_def)

lemma extract_pair:
  "qa \<in> set (extract_qa_pairs cs aas inc) \<longleftrightarrow>
   (\<exists>qa0 \<in> set (collect_qa_pairs cs aas inc).
      qa = qa0\<lparr> answers := sort_key created_utc (answers qa0) \<rparr>)"
  by (auto simp: extract_qa_pairs_def)

lemma extract_sound:
  assumes "qa \<in> set (extract_qa_pairs cs aas inc)" and "a \<in> set (answers qa)"
  shows "answers_to (map lower aas) (build_comment_map cs) inc a (question qa)"
proof -
  from assms(1) obtain qa0 where qa0: "qa0 \<in> set (collect_qa_pairs cs aas inc)"
    "qa = qa0\<lparr> answers := sort_key created_utc (answers qa0) \<rparr>"
    by (auto simp: extract_pair)
  from good_collect [of aas cs inc] qa0(1)
  have "good_pair (map lower aas) (build_comment_map cs) inc qa0"
    by (simp add: good_pairs_def)
  with qa0(2) assms(2) show ?thesis by (simp add: good_pair_def)
qed

lemma extract_nonempty:
  assumes "qa \<in> set (extract_qa_pairs cs aas inc)"
  shows "answers qa \<noteq> []"
proof -
  from assms(1) obtain qa0 where qa0: "qa0 \<in> set (collect_qa_pairs cs aas inc)"
    "qa = qa0\<lparr> answers := sort_key created_utc (answers qa0) \<rparr>"
    by (auto simp: extract_pair)
  from good_collect [of aas cs inc] qa0(1)
  have "answers qa0 \<noteq> []"
    by (simp add: good_pairs_def good_pair_def)
  then have "length (sort_key created_utc (answers qa0)) \<noteq> 0"
    by (simp only: length_sort) simp
  then have "sort_key created_utc (answers qa0) \<noteq> []"
    by (simp only: length_0_conv not_False_eq_True)
  with qa0(2) show ?thesis by simp
qed

lemma extract_complete:
  assumes "c \<in> set cs"
    and "answers_to (map lower aas) (build_comment_map cs) inc c parent"
  shows "\<exists>qa \<in> set (extract_qa_pairs cs aas inc). question qa = parent \<and> c \<in> set (answers qa)"
proof -
  from collect_complete [OF assms] obtain qa0
    where "qa0 \<in> set (collect_qa_pairs cs aas inc)" "question qa0 = parent" "c \<in> set (answers qa0)"
    by blast
  then have "qa0\<lparr> answers := sort_key created_utc (answers qa0) \<rparr> \<in> set (extract_qa_pairs cs aas inc)"
    "question (qa0\<lparr> answers := sort_key created_utc (answers qa0) \<rparr>) = parent"
    "c \<in> set (answers (qa0\<lparr> answers := sort_key created_utc (answers qa0) \<rparr>))"
    by (simp_all add: extract_qa_pairs_def)
  then show ?thesis by blast
qed

lemma extract_question_ids:
  "map (\<lambda>qa. id_c (question qa)) (extract_qa_pairs cs aas inc) =
   map (\<lambda>qa. id_c (question qa))
     (sort_key (\<lambda>qa. created_utc (question qa)) (collect_qa_pairs cs aas inc))"
  by (simp add: extract_qa_pairs_def comp_def)

text \<open>
  Claim C5. The pairs of the result are in ascending order of the creation time of their
  questions, and the answers of every pair are in ascending order of their creation times.
\<close>

theorem qa_groups_sorted:
  "sorted (map (\<lambda>qa. created_utc (question qa)) (extract_qa_pairs cs aas inc)) \<and>
   (\<forall>qa \<in> set (extract_qa_pairs cs aas inc). sorted (map created_utc (answers qa)))"
proof
  have "map (\<lambda>qa. created_utc (question qa)) (extract_qa_pairs cs aas inc) =
        map (\<lambda>qa. created_utc (question qa))
          (sort_key (\<lambda>qa. created_utc (question qa)) (collect_qa_pairs cs aas inc))"
    by (simp add: extract_qa_pairs_def comp_def)
  then show "sorted (map (\<lambda>qa. created_utc (question qa)) (extract_qa_pairs cs aas inc))"
    by (simp only: sorted_sort_key)
  show "\<forall>qa \<in> set (extract_qa_pairs cs aas inc). sorted (map created_utc (answers qa))"
    by (auto simp: extract_pair)
qed

theorem qa_groups_sorted_witness:
  "map (\<lambda>qa. (id_c (question qa), map id_c (answers qa)))
     (extract_qa_pairs
       [simple_comment ''q1'' ''mod'' ''why?'' 100 ''t3_s'',
        simple_comment ''q2'' ''mod'' ''how?'' 50 ''t3_s'',
        simple_comment ''a1'' ''target'' ''because'' 150 ''t1_q1'',
        simple_comment ''a2'' ''target'' ''so'' 120 ''t1_q2''] [''target''] False) =
     [(''q2'', [''a2'']), (''q1'', [''a1''])] \<and>
   sorted (map (\<lambda>qa. created_utc (question qa))
     (extract_qa_pairs
       [simple_comment ''q1'' ''mod'' ''why?'' 100 ''t3_s'',
        simple_comment ''q2'' ''mod'' ''how?'' 50 ''t3_s'',
        simple_comment ''a1'' ''target'' ''because'' 150 ''t1_q1'',
        simple_comment ''a2'' ''target'' ''so'' 120 ''t1_q2''] [''target''] False)) \<and>
   list_all (\<lambda>qa. sorted (map created_utc (answers qa)))
     (extract_qa_pairs
       [simple_comment ''q1'' ''mod'' ''why?'' 100 ''t3_s'',
        simple_comment ''q2'' ''mod'' ''how?'' 50 ''t3_s'',
        simple_comment ''a1'' ''target'' ''because'' 150 ''t1_q1'',
        simple_comment ''a2'' ''target'' ''so'' 120 ''t1_q2''] [''target''] False)"
  using qa_groups_sorted
    [of "[simple_comment ''q1'' ''mod'' ''why?'' 100 ''t3_s'',
          simple_comment ''q2'' ''mod'' ''how?'' 50 ''t3_s'',
          simple_comment ''a1'' ''target'' ''because'' 150 ''t1_q1'',
          simple_comment ''a2'' ''target'' ''so'' 120 ''t1_q2'']" "[''target'']" False]
  by (simp add: correlator_defs)

text \<open>
  Claim C6. A comment whose parent id starts with \<^verbatim>\<open>t3_\<close> (a reply to the submission
  itself) is no answer of any pair of the result.
\<close>

theorem submission_reply_never_answer:
  assumes "startswith (parent_id c) ''t3_''"
  shows "\<forall>qa \<in> set (extract_qa_pairs cs aas inc). c \<notin> set (answers qa)"
proof (intro ballI notI)
  fix qa assume "qa \<in> set (extract_qa_pairs cs aas inc)" "c \<in> set (answers qa)"
  then have "startswith (parent_id c) ''t1_''"
    using extract_sound by (auto simp: answers_to_def)
  with assms show False by (auto simp: startswith_def)
qed

theorem submission_reply_never_answer_witness:
  "startswith (parent_id (simple_comment ''a1'' ''target'' ''first'' 150 ''t3_s'')) ''t3_'' \<and>
   extract_qa_pairs
     [simple_comment ''q1'' ''mod'' ''why?'' 100 ''t3_s'',
      simple_comment ''a1'' ''target'' ''first'' 150 ''t3_s'',
      simple_comment ''a2'' ''target'' ''second'' 120 ''t1_q1''] [''target''] False =
     [\<lparr> question = simple_comment ''q1'' ''mod'' ''why?'' 100 ''t3_s'',
        answers = [simple_comment ''a2'' ''target'' ''second'' 120 ''t1_q1''] \<rparr>] \<and>
   list_all (\<lambda>qa. simple_comment ''a1'' ''target'' ''first'' 150 ''t3_s'' \<notin> set (answers qa))
     (extract_qa_pairs
       [simple_comment ''q1'' ''mod'' ''why?'' 100 ''t3_s'',
        simple_comment ''a1'' ''target'' ''first'' 150 ''t3_s'',
        simple_comment ''a2'' ''target'' ''second'' 120 ''t1_q1''] [''target''] False)"
  using submission_reply_never_answer
    [of "simple_comment ''a1'' ''target'' ''first'' 150 ''t3_s''"
        "[simple_comment ''q1'' ''mod'' ''why?'' 100 ''t3_s'',
          simple_comment ''a1'' ''target'' ''first'' 150 ''t3_s'',
          simple_comment ''a2'' ''target'' ''second'' 120 ''t1_q1'']" "[''target'']" False]
  by (simp add: correlator_defs)

text \<open>
  Claim C10. A comment whose author is the empty string is no answer of any pair of the
  result, whatever the list of target authors holds (the empty string too): the test
  \<^verbatim>\<open>comment.author and ...\<close> comes before the membership test.
\<close>

theorem empty_author_never_answer:
  assumes "author c = []"
  shows "\<forall>qa \<in> set (extract_qa_pairs cs aas inc). c \<notin> set (answers qa)"
proof (intro ballI notI)
  fix qa assume "qa \<in> set (extract_qa_pairs cs aas inc)" "c \<in> set (answers qa)"
  then have "author c \<noteq> []"
    using extract_sound by (auto simp: answers_to_def)
  with assms show False by simp
qed

theorem empty_author_never_answer_witness:
  "author (simple_comment ''a1'' [] ''first'' 150 ''t1_q1'') = [] \<and>
   lower (author (simple_comment ''a1'' [] ''first'' 150 ''t1_q1'')) \<in> set (map lower [[], ''Target'']) \<and>
   extract_qa_pairs
     [simple_comment ''q1'' ''mod'' ''why?'' 100 ''t3_s'',
      simple_comment ''a1'' [] ''first'' 150 ''t1_q1'',
      simple_comment ''a2'' ''target'' ''second'' 120 ''t1_q1''] [[], ''Target''] False =
     [\<lparr> question = simple_comment ''q1'' ''mod'' ''why?'' 100 ''t3_s'',
        answers = [simple_comment ''a2'' ''target'' ''second'' 120 ''t1_q1''] \<rparr>] \<and>
   list_all (\<lambda>qa. simple_comment ''a1'' [] ''first'' 150 ''t1_q1'' \<notin> set (answers qa))
     (extract_qa_pairs
       [simple_comment ''q1'' ''mod'' ''why?'' 100 ''t3_s'',
        simple_comment ''a1'' [] ''first'' 150 ''t1_q1'',
        simple_comment ''a2'' ''target'' ''second'' 120 ''t1_q1''] [[], ''Target''] False)"
  using empty_author_never_answer
    [of "simple_comment ''a1'' [] ''first'' 150 ''t1_q1''"
        "[simple_comment ''q1'' ''mod'' ''why?'' 100 ''t3_s'',
          simple_comment ''a1'' [] ''first'' 150 ''t1_q1'',
          simple_comment ''a2'' ''target'' ''second'' 120 ''t1_q1'']" "[[], ''Target'']" False]
  by (simp add: correlator_defs)

text \<open>
  Claim C9. The result holds at most one pair for each question id. Where a pair for the
  parent's id is already in the list, \<^verbatim>\<open>existing.answers.append\<close> leaves the questions of the
  list as they are and puts the answer into a pair of that id.
\<close>

theorem one_group_per_question:
  "distinct (map (\<lambda>qa. id_c (question qa)) (extract_qa_pairs cs aas inc)) \<and>
   (\<forall>(parent :: comment) c (qas :: qa_pair list). id_c parent \<in> set (map (\<lambda>qa. id_c (question qa)) qas) \<longrightarrow>
      map question (add_answer parent c qas) = map question qas \<and>
      (\<exists>qa \<in> set (add_answer parent c qas). id_c (question qa) = id_c parent \<and> c \<in> set (answers qa)))"
proof (intro conjI allI impI)
  have "distinct (map (\<lambda>qa. id_c (question qa)) (collect_qa_pairs cs aas inc))"
    using good_collect [of aas cs inc] by (simp add: good_pairs_def)
  then have "distinct (map (\<lambda>qa. id_c (question qa))
     (sort_key (\<lambda>qa. created_utc (question qa)) (collect_qa_pairs cs aas inc)))"
    by (simp add: distinct_map)
  then show "distinct (map (\<lambda>qa. id_c (question qa)) (extract_qa_pairs cs aas inc))"
    by (simp only: extract_question_ids)
next
  fix parent :: comment and c and qas :: "qa_pair list"
  assume "id_c parent \<in> set (map (\<lambda>qa. id_c (question qa)) qas)"
  then show "map question (add_answer parent c qas) = map question qas"
    by (simp only: questions_add_answer if_True)
next
  fix parent :: comment and c and qas :: "qa_pair list"
  show "\<exists>qa \<in> set (add_answer parent c qas). id_c (question qa) = id_c parent \<and> c \<in> set (answers qa)"
    by (rule add_answer_adds_id)
qed

theorem one_group_per_question_witness:
  "map (\<lambda>qa. (id_c (question qa), map id_c (answers qa)))
     (extract_qa_pairs
       [simple_comment ''q1'' ''mod'' ''why?'' 100 ''t3_s'',
        simple_comment ''a1'' ''target'' ''first'' 150 ''t1_q1'',
        simple_comment ''a2'' ''target'' ''second'' 120 ''t1_q1''] [''target''] False) =
     [(''q1'', [''a2'', ''a1''])] \<and>
   id_c (simple_comment ''q1'' ''mod'' ''why?'' 100 ''t3_s'') \<in>
     set (map (\<lambda>qa. id_c (question qa))
       [\<lparr> question = simple_comment ''q1'' ''mod'' ''why?'' 100 ''t3_s'',
          answers = [simple_comment ''a1'' ''target'' ''first'' 150 ''t1_q1''] \<rparr>]) \<and>
   map question (add_answer (simple_comment ''q1'' ''mod'' ''why?'' 100 ''t3_s'')
       (simple_comment ''a2'' ''target'' ''second'' 120 ''t1_q1'')
       [\<lparr> question = simple_comment ''q1'' ''mod'' ''why?'' 100 ''t3_s'',
          answers = [simple_comment ''a1'' ''target'' ''first'' 150 ''t1_q1''] \<rparr>]) =
     [simple_comment ''q1'' ''mod'' ''why?'' 100 ''t3_s'']"
  using one_group_per_question
    [of "[simple_comment ''q1'' ''mod'' ''why?'' 100 ''t3_s'',
          simple_comment ''a1'' ''target'' ''first'' 150 ''t1_q1'',
          simple_comment ''a2'' ''target'' ''second'' 120 ''t1_q1'']" "[''target'']" False]
  by (simp add: correlator_defs)

lemma fold_store_last:
  "fold (\<lambda>c m. m(id_c c \<mapsto> c)) cs m k =
     (if filter (\<lambda>x. id_c x = k) cs = [] then m k
      else Some (last (filter (\<lambda>x. id_c x = k) cs)))"
proof (induction cs arbitrary: m)
  case Nil
  then show ?case by simp
next
  case (Cons c cs)
  have step: "fold (\<lambda>c m. m(id_c c \<mapsto> c)) (c # cs) m k =
              fold (\<lambda>c m. m(id_c c \<mapsto> c)) cs (m(id_c c \<mapsto> c)) k"
    by (simp only: fold_simps o_apply)
  show ?case
  proof (cases "id_c c = k")
    case True
    then have "(m(id_c c \<mapsto> c)) k = Some c" by simp
    with True show ?thesis
      unfolding step Cons.IH [of "m(id_c c \<mapsto> c)"] by simp
  next
    case False
    then have "(m(id_c c \<mapsto> c)) k = m k" by simp
    with False show ?thesis
      unfolding step Cons.IH [of "m(id_c c \<mapsto> c)"] by simp
  qed
qed

lemma build_comment_map_last:
  assumes "p \<in> set cs"
  shows "build_comment_map cs (id_c p) = Some (last (filter (\<lambda>x. id_c x = id_c p) cs))"
proof -
  from assms have "filter (\<lambda>x. id_c x = id_c p) cs \<noteq> []"
    by (auto simp: filter_empty_conv)
  then show ?thesis
    unfolding build_comment_map_def fold_store_last by simp
qed

lemma last_filter_unique:
  assumes "p \<in> set cs" and "\<forall>x \<in> set cs. id_c x = id_c p \<longrightarrow> x = p"
  shows "last (filter (\<lambda>x. id_c x = id_c p) cs) = p"
proof -
  from assms(1) have ne: "filter (\<lambda>x. id_c x = id_c p) cs \<noteq> []"
    by (auto simp: filter_empty_conv)
  then have "last (filter (\<lambda>x. id_c x = id_c p) cs) \<in> set (filter (\<lambda>x. id_c x = id_c p) cs)"
    by (rule last_in_set)
  with assms(2) show ?thesis by auto
qed

lemma extract_includes_reply:
  assumes "c \<in> set cs" and "author c \<noteq> []" and "lower (author c) \<in> set (map lower aas)"
    and "parent_id c = ''t1_'' @ id_c p" and "p \<in> set cs"
  shows "\<exists>qa \<in> set (extract_qa_pairs cs aas True).
           question qa = last (filter (\<lambda>x. id_c x = id_c p) cs) \<and> c \<in> set (answers qa)"
proof -
  from assms(4) have "startswith (parent_id c) ''t1_''" "drop 3 (parent_id c) = id_c p"
    by (simp_all add: startswith_def)
  with build_comment_map_last [OF assms(5)] assms(2,3)
  have "answers_to (map lower aas) (build_comment_map cs) True c
          (last (filter (\<lambda>x. id_c x = id_c p) cs))"
    by (simp add: answers_to_def)
  with assms(1) show ?thesis by (rule extract_complete)
qed

text \<open>
  Claim C7. Without \<^verbatim>\<open>include_deleted\<close>, a comment whose body is \<^verbatim>\<open>[deleted]\<close> or
  \<^verbatim>\<open>[removed]\<close> is neither the question of a pair of the result nor one of its answers.
  With \<^verbatim>\<open>include_deleted\<close>, every comment \<open>c\<close> of a target author that replies to a comment
  \<open>p\<close> of the input is an answer of a pair whose question is the comment of the input with
  the id of \<open>p\<close> (the last one when several carry that id, \<open>p\<close> itself when it is the only
  one), whatever the bodies of \<open>c\<close> and \<open>p\<close> are: a deleted or removed comment is included
  as an answer and as a question.
\<close>

theorem deleted_filter:
  "(is_deleted_body (body c) \<longrightarrow>
      (\<forall>qa \<in> set (extract_qa_pairs cs aas False). question qa \<noteq> c \<and> c \<notin> set (answers qa))) \<and>
   (c \<in> set cs \<and> author c \<noteq> [] \<and> lower (author c) \<in> set (map lower aas) \<and>
    parent_id c = ''t1_'' @ id_c p \<and> p \<in> set cs \<longrightarrow>
      (\<exists>qa \<in> set (extract_qa_pairs cs aas True).
         question qa = last (filter (\<lambda>x. id_c x = id_c p) cs) \<and> c \<in> set (answers qa))) \<and>
   (c \<in> set cs \<and> author c \<noteq> [] \<and> lower (author c) \<in> set (map lower aas) \<and>
    parent_id c = ''t1_'' @ id_c p \<and> p \<in> set cs \<and>
    (\<forall>x \<in> set cs. id_c x = id_c p \<longrightarrow> x = p) \<longrightarrow>
      (\<exists>qa \<in> set (extract_qa_pairs cs aas True). question qa = p \<and> c \<in> set (answers qa)))"
proof (intro conjI impI ballI)
  fix qa
  assume del: "is_deleted_body (body c)" and qa: "qa \<in> set (extract_qa_pairs cs aas False)"
  from extract_nonempty [OF qa] obtain a where a: "a \<in> set (answers qa)"
    by (cases "answers qa") auto
  from extract_sound [OF qa a] have "\<not> is_deleted_body (body (question qa))"
    by (simp add: answers_to_def)
  with del show "question qa \<noteq> c" by auto
  show "c \<notin> set (answers qa)"
  proof
    assume "c \<in> set (answers qa)"
    from extract_sound [OF qa this] del show False by (simp add: answers_to_def)
  qed
next
  assume "c \<in> set cs \<and> author c \<noteq> [] \<and> lower (author c) \<in> set (map lower aas) \<and>
    parent_id c = ''t1_'' @ id_c p \<and> p \<in> set cs"
  then show "\<exists>qa \<in> set (extract_qa_pairs cs aas True).
         question qa = last (filter (\<lambda>x. id_c x = id_c p) cs) \<and> c \<in> set (answers qa)"
    using extract_includes_reply [of c cs aas p] by blast
next
  assume h: "c \<in> set cs \<and> author c \<noteq> [] \<and> lower (author c) \<in> set (map lower aas) \<and>
    parent_id c = ''t1_'' @ id_c p \<and> p \<in> set cs \<and>
    (\<forall>x \<in> set cs. id_c x = id_c p \<longrightarrow> x = p)"
  then have "last (filter (\<lambda>x. id_c x = id_c p) cs) = p"
    using last_filter_unique [of p cs] by blast
  with h show "\<exists>qa \<in> set (extract_qa_pairs cs aas True). question qa = p \<and> c \<in> set (answers qa)"
    using extract_includes_reply [of c cs aas p] by auto
qed

theorem deleted_filter_witness:
  "is_deleted_body (body (simple_comment ''a1'' ''target'' ''[deleted]'' 150 ''t1_q2'')) \<and>
   is_deleted_body (body (simple_comment ''q2'' ''mod'' ''[removed]'' 50 ''t3_s'')) \<and>
   parent_id (simple_comment ''a1'' ''target'' ''[deleted]'' 150 ''t1_q2'') =
     ''t1_'' @ id_c (simple_comment ''q2'' ''mod'' ''[removed]'' 50 ''t3_s'') \<and>
   list_all (\<lambda>x. id_c x = ''q2'' \<longrightarrow> x = simple_comment ''q2'' ''mod'' ''[removed]'' 50 ''t3_s'')
     [simple_comment ''q1'' ''mod'' ''why?'' 100 ''t3_s'',
      simple_comment ''q2'' ''mod'' ''[removed]'' 50 ''t3_s'',
      simple_comment ''a1'' ''target'' ''[deleted]'' 150 ''t1_q2'',
      simple_comment ''a3'' ''target'' ''so'' 130 ''t1_q1''] \<and>
   extract_qa_pairs
     [simple_comment ''q1'' ''mod'' ''why?'' 100 ''t3_s'',
      simple_comment ''q2'' ''mod'' ''[removed]'' 50 ''t3_s'',
      simple_comment ''a1'' ''target'' ''[deleted]'' 150 ''t1_q2'',
      simple_comment ''a3'' ''target'' ''so'' 130 ''t1_q1''] [''target''] False =
     [\<lparr> question = simple_comment ''q1'' ''mod'' ''why?'' 100 ''t3_s'',
        answers = [simple_comment ''a3'' ''target'' ''so'' 130 ''t1_q1''] \<rparr>] \<and>
   extract_qa_pairs
     [simple_comment ''q1'' ''mod'' ''why?'' 100 ''t3_s'',
      simple_comment ''q2'' ''mod'' ''[removed]'' 50 ''t3_s'',
      simple_comment ''a1'' ''target'' ''[deleted]'' 150 ''t1_q2'',
      simple_comment ''a3'' ''target'' ''so'' 130 ''t1_q1''] [''target''] True =
     [\<lparr> question = simple_comment ''q2'' ''mod'' ''[removed]'' 50 ''t3_s'',
        answers = [simple_comment ''a1'' ''target'' ''[deleted]'' 150 ''t1_q2''] \<rparr>,
      \<lparr> question = simple_comment ''q1'' ''mod'' ''why?'' 100 ''t3_s'',
        answers = [simple_comment ''a3'' ''target'' ''so'' 130 ''t1_q1''] \<rparr>]"
  using deleted_filter
    [of "simple_comment ''a1'' ''target'' ''[deleted]'' 150 ''t1_q2''"
        "[simple_comment ''q1'' ''mod'' ''why?'' 100 ''t3_s'',
          simple_comment ''q2'' ''mod'' ''[removed]'' 50 ''t3_s'',
          simple_comment ''a1'' ''target'' ''[deleted]'' 150 ''t1_q2'',
          simple_comment ''a3'' ''target'' ''so'' 130 ''t1_q1'']"
        "[''target'']"
        "simple_comment ''q2'' ''mod'' ''[removed]'' 50 ''t3_s''"]
  by (simp add: correlator_defs)

section \<open>Properties of the tree walker and of the fetch loops\<close>

lemma walk_fetched_mono:
  "fetched_ids st \<subseteq> fetched_ids (process_comment_listing children st)"
  "fetched_ids st \<subseteq> fetched_ids (process_thing thing st)"
  "fetched_ids st \<subseteq> fetched_ids (process_replies replies st)"
  by (induction children st and thing st and replies st
      rule: process_comment_listing_process_thing_process_replies.induct)
     (auto split: option.splits)

lemma walk_inv_step:
  assumes "walk_inv st" and "comment_id \<notin> fetched_ids st"
  shows "walk_inv (st\<lparr> fetched_ids := insert comment_id (fetched_ids st),
                       comments := comments st @ [make_comment comment_id d] \<rparr>)"
  using assms by (auto simp: walk_inv_def make_comment_def)

lemma walk_inv_preserved:
  "walk_inv st \<Longrightarrow> walk_inv (process_comment_listing children st)"
  "walk_inv st \<Longrightarrow> walk_inv (process_thing thing st)"
  "walk_inv st \<Longrightarrow> walk_inv (process_replies replies st)"
proof (induction children st and thing st and replies st
      rule: process_comment_listing_process_thing_process_replies.induct)
  case (3 d replies st)
  then show ?case
    by (auto split: option.splits simp: walk_inv_step)
next
  case (4 children_ids st)
  then show ?case by (simp add: walk_inv_def)
qed simp_all

lemma walk_appends:
  "\<exists>ys. comments (process_comment_listing children st) = comments st @ ys"
  "\<exists>ys. comments (process_thing thing st) = comments st @ ys"
  "\<exists>ys. comments (process_replies replies st) = comments st @ ys"
proof (induction children st and thing st and replies st
      rule: process_comment_listing_process_thing_process_replies.induct)
  case (2 thing children st)
  then show ?case by (metis append.assoc process_comment_listing.simps(2))
next
  case (3 d replies st)
  then show ?case
    by (cases "d_id d") (auto)
qed simp_all

lemma walk_seen_not_appended:
  "i \<in> fetched_ids st \<Longrightarrow>
     filter (\<lambda>c. id_c c = i) (comments (process_comment_listing children st)) =
     filter (\<lambda>c. id_c c = i) (comments st)"
  "i \<in> fetched_ids st \<Longrightarrow>
     filter (\<lambda>c. id_c c = i) (comments (process_thing thing st)) =
     filter (\<lambda>c. id_c c = i) (comments st)"
  "i \<in> fetched_ids st \<Longrightarrow>
     filter (\<lambda>c. id_c c = i) (comments (process_replies replies st)) =
     filter (\<lambda>c. id_c c = i) (comments st)"
proof (induction children st and thing st and replies st
      rule: process_comment_listing_process_thing_process_replies.induct)
  case (2 thing children st)
  from 2(3) walk_fetched_mono(2) [of st thing] have "i \<in> fetched_ids (process_thing thing st)"
    by blast
  with 2 show ?case by simp
next
  case (3 d replies st)
  then show ?case
    by (cases "d_id d") (auto simp: make_comment_def)
qed simp_all

declare expand_public.simps [simp del]

lemma walk_inv_empty: "walk_inv empty_state"
  by (simp add: walk_inv_def empty_state_def)

lemma walk_inv_more_ids: "walk_inv (st\<lparr> more_ids := ms \<rparr>) = walk_inv st"
  by (simp add: walk_inv_def)

lemma walk_inv_initial: "walk_inv (initial_walk response)"
  by (simp add: initial_walk_def walk_inv_empty walk_inv_preserved(1) split: option.splits)

lemma expand_public_stop:
  "\<not> (more_ids st \<noteq> [] \<and> e < 20) \<Longrightarrow> expand_public server cb e issued st = (st, issued, e)"
  by (subst expand_public.simps) auto

lemma expand_auth_inv:
  "walk_inv st \<Longrightarrow> expand_auth calls sid (st, tr) = Some (st', tr') \<Longrightarrow> walk_inv st'"
proof (induction calls arbitrary: st tr)
  case Nil
  then show ?case by (simp split: if_splits)
next
  case (Cons script calls)
  show ?case
  proof (cases "more_ids st = []")
    case True
    with Cons.prems show ?thesis by simp
  next
    case False
    let ?st1 = "st\<lparr> more_ids := drop 100 (more_ids st) \<rparr>"
    have inv1: "walk_inv ?st1" using Cons.prems(1) by (simp add: walk_inv_more_ids)
    obtain res evs rest
      where req: "request_auth script (morechildren_call sid (take 100 (more_ids st))) = (res, evs, rest)"
      by (cases "request_auth script (morechildren_call sid (take 100 (more_ids st)))") auto
    show ?thesis
    proof (cases res)
      case None
      with Cons.prems(2) False req show ?thesis by (simp add: Let_def)
    next
      case (Some outcome)
      show ?thesis
      proof (cases outcome)
        case (Inl e)
        with Cons.prems(2) False req Some
        have "expand_auth calls sid
                (?st1, tr @ [Expanding (length (take 100 (more_ids st))) (length (more_ids ?st1))]
                   @ evs @ [Warning e]) = Some (st', tr')"
          by (simp add: Let_def)
        with inv1 show ?thesis by (rule Cons.IH)
      next
        case (Inr more_response)
        show ?thesis
        proof (cases "expansion_things more_response")
          case None
          with Cons.prems(2) False req Some Inr
          have "expand_auth calls sid
                  (?st1, tr @ [Expanding (length (take 100 (more_ids st))) (length (more_ids ?st1))]
                     @ evs) = Some (st', tr')"
            by (simp add: Let_def)
          with inv1 show ?thesis by (rule Cons.IH)
        next
          case (Some things)
          with Cons.prems(2) False req \<open>res = Some outcome\<close> Inr
          have "expand_auth calls sid
                  (process_comment_listing things ?st1,
                   tr @ [Expanding (length (take 100 (more_ids st))) (length (more_ids ?st1))]
                     @ evs) = Some (st', tr')"
            by (simp add: Let_def)
          moreover have "walk_inv (process_comment_listing things ?st1)"
            using inv1 by (rule walk_inv_preserved(1))
          ultimately show ?thesis by (rule Cons.IH [rotated])
        qed
      qed
    qed
  qed
qed

lemma expand_public_inv:
  "walk_inv st \<Longrightarrow> walk_inv (fst (expand_public server cb e issued st))"
proof (induction server cb e issued st rule: expand_public.induct)
  case (1 server cb e issued st)
  let ?st1 = "st\<lparr> more_ids := drop 100 (more_ids st) \<rparr>"
  have inv1: "walk_inv ?st1" using "1.prems" by (simp add: walk_inv_more_ids)
  show ?case
  proof (cases "more_ids st \<noteq> [] \<and> e < 20")
    case False
    then have "expand_public server cb e issued st = (st, issued, e)"
      by (rule expand_public_stop)
    with "1.prems" show ?thesis by simp
  next
    case True
    show ?thesis
    proof (cases "server (length issued) (take 100 (more_ids st))")
      case NoReply
      with True inv1 show ?thesis
        by (simp add: expand_public.simps [of server cb e issued st] Let_def)
    next
      case (Reply status_code h payload)
      show ?thesis
      proof (cases "status_code = 200")
        case False
        with True Reply inv1 show ?thesis
          by (simp add: expand_public.simps [of server cb e issued st] Let_def)
      next
        case ok: True
        show ?thesis
        proof (cases payload)
          case None
          with True Reply ok inv1 show ?thesis
            by (simp add: expand_public.simps [of server cb e issued st] Let_def)
        next
          case (Some data)
          show ?thesis
          proof (cases "expansion_things data")
            case None
            have "walk_inv (fst (expand_public server cb e (issued @ [take 100 (more_ids st)]) ?st1))"
              using True Reply ok Some None inv1
              by (intro "1.IH"(1)) simp_all
            with True Reply ok Some None show ?thesis
              by (simp add: expand_public.simps [of server cb e issued st] Let_def)
          next
            case things: (Some things)
            have inv2: "walk_inv (process_comment_listing things ?st1)"
              using inv1 by (rule walk_inv_preserved(1))
            show ?thesis
            proof (cases "callback_returns cb
                            (length (comments (process_comment_listing things ?st1)))
                            (length (more_ids (process_comment_listing things ?st1)))")
              case False
              with True Reply ok Some things inv2 show ?thesis
                by (simp add: expand_public.simps [of server cb e issued st] Let_def)
            next
              case cb_ok: True
              have "walk_inv (fst (expand_public server cb (e + 1) (issued @ [take 100 (more_ids st)])
                      (process_comment_listing things ?st1)))"
                using True Reply ok Some things cb_ok inv2
                by (intro "1.IH"(2)) simp_all
              with True Reply ok Some things cb_ok show ?thesis
                by (simp add: expand_public.simps [of server cb e issued st] Let_def)
            qed
          qed
        qed
      qed
    qed
  qed
qed

lemma get_all_comments_auth_distinct:
  assumes "get_all_comments_auth calls sid = Some (Inr cs, tr)"
  shows "distinct (map id_c cs)"
proof -
  from assms obtain calls' response evs st
    where "expand_auth calls' sid (initial_walk response, evs) = Some (st, tr)"
      and cs: "cs = comments st"
    by (auto simp: get_all_comments_auth_def split: list.splits prod.splits option.splits sum.splits)
  from expand_auth_inv [OF walk_inv_initial this(1)] cs show ?thesis
    by (simp add: walk_inv_def)
qed

lemma get_all_comments_public_distinct:
  assumes "get_all_comments_public script server cb sid = Some (Inr cs)"
  shows "distinct (map id_c cs)"
proof -
  from assms obtain response
    where "cs = comments (fst (expand_public server cb 0 [] (initial_walk response)))"
    by (auto simp: get_all_comments_public_def Let_def
             split: prod.splits option.splits sum.splits if_splits)
  with expand_public_inv [OF walk_inv_initial] show ?thesis
    by (simp add: walk_inv_def)
qed

lemma walk_new_unseen:
  assumes "comments (process_replies replies st) = comments st @ ys" and "c \<in> set ys"
  shows "id_c c \<notin> fetched_ids st"
proof
  assume "id_c c \<in> fetched_ids st"
  then have "filter (\<lambda>x. id_c x = id_c c) (comments (process_replies replies st)) =
             filter (\<lambda>x. id_c x = id_c c) (comments st)"
    by (rule walk_seen_not_appended(3))
  with assms(1) have "filter (\<lambda>x. id_c x = id_c c) ys = []" by simp
  with assms(2) show False by (auto simp: filter_empty_conv)
qed

lemmas walker_defs =
  empty_state_def node_data_def make_comment_def get_default_def

text \<open>
  Claim C1. An id that is in \<^verbatim>\<open>fetched_ids\<close> is never appended again by a walk; a walk keeps
  the invariant that the comments collected have distinct ids, all of them in
  \<^verbatim>\<open>fetched_ids\<close>; and the list that \<^verbatim>\<open>get_all_comments\<close> returns, in either client, holds no
  id twice, whatever the listing and the expansion replies are.
\<close>

theorem no_duplicate_ids:
  "(i \<in> fetched_ids st \<longrightarrow>
      filter (\<lambda>c. id_c c = i) (comments (process_comment_listing children st)) =
      filter (\<lambda>c. id_c c = i) (comments st)) \<and>
   (walk_inv st \<longrightarrow> walk_inv (process_comment_listing children st)) \<and>
   (get_all_comments_auth calls sid = Some (Inr cs, tr) \<longrightarrow> distinct (map id_c cs)) \<and>
   (get_all_comments_public script server cb sid = Some (Inr cs') \<longrightarrow> distinct (map id_c cs'))"
  using walk_seen_not_appended(1) [of i st children] walk_inv_preserved(1) [of st children]
    get_all_comments_auth_distinct [of calls sid cs tr]
    get_all_comments_public_distinct [of script server cb sid cs']
  by blast

theorem no_duplicate_ids_witness:
  "''a'' \<in> fetched_ids (process_thing (T1 (node_data ''a'') None) empty_state) \<and>
   map id_c (comments (process_comment_listing
      [T1 (node_data ''b'') (Some [T1 (node_data ''a'') None]), T1 (node_data ''a'') None]
      (process_thing (T1 (node_data ''a'') None) empty_state))) = [''a'', ''b''] \<and>
   walk_inv (process_thing (T1 (node_data ''a'') None) empty_state) \<and>
   get_all_comments_auth
     [[(TokenValid, Reply 200 Absent (Some (Listings
          [[], [T1 (node_data ''a'') (Some [T1 (node_data ''b'') None]),
                T1 (node_data ''a'') None, More [''c'', ''b'']]])))],
      [(TokenValid, Reply 200 Absent (Some (MoreChildren (Some
          [T1 (node_data ''c'') None, T1 (node_data ''a'') None,
           T1 (node_data ''c'') None]))))]] ''s'' =
     Some (Inr [make_comment ''a'' (node_data ''a''), make_comment ''b'' (node_data ''b''),
                make_comment ''c'' (node_data ''c'')],
           [RateLimit, Send (listing_call ''s''), Expanding 1 0,
            RateLimit, Send (morechildren_call ''s'' [''c''])]) \<and>
   get_all_comments_public
     [Reply 200 Absent (Some (Listings
          [[], [T1 (node_data ''a'') (Some [T1 (node_data ''b'') None]),
                T1 (node_data ''a'') None, More [''c'', ''b'']]]))]
     (\<lambda>k batch. Reply 200 Absent (Some (MoreChildren (Some
          [T1 (node_data ''c'') None, T1 (node_data ''a'') None,
           T1 (node_data ''c'') None])))) None ''s'' =
     Some (Inr [make_comment ''a'' (node_data ''a''), make_comment ''b'' (node_data ''b''),
                make_comment ''c'' (node_data ''c'')]) \<and>
   distinct (map id_c [make_comment ''a'' (node_data ''a''), make_comment ''b'' (node_data ''b''),
                make_comment ''c'' (node_data ''c'')])"
  using no_duplicate_ids
    [of "''a''" "process_thing (T1 (node_data ''a'') None) empty_state"
        "[T1 (node_data ''b'') (Some [T1 (node_data ''a'') None]), T1 (node_data ''a'') None]"
        "[[(TokenValid, Reply 200 Absent (Some (Listings
          [[], [T1 (node_data ''a'') (Some [T1 (node_data ''b'') None]),
                T1 (node_data ''a'') None, More [''c'', ''b'']]])))],
      [(TokenValid, Reply 200 Absent (Some (MoreChildren (Some
          [T1 (node_data ''c'') None, T1 (node_data ''a'') None,
           T1 (node_data ''c'') None]))))]]"
        "''s''"
        "[make_comment ''a'' (node_data ''a''), make_comment ''b'' (node_data ''b''),
          make_comment ''c'' (node_data ''c'')]"
        "[RateLimit, Send (listing_call ''s''), Expanding 1 0,
          RateLimit, Send (morechildren_call ''s'' [''c''])]"
        "[Reply 200 Absent (Some (Listings
          [[], [T1 (node_data ''a'') (Some [T1 (node_data ''b'') None]),
                T1 (node_data ''a'') None, More [''c'', ''b'']]]))]"
        "\<lambda>k batch. Reply 200 Absent (Some (MoreChildren (Some
          [T1 (node_data ''c'') None, T1 (node_data ''a'') None,
           T1 (node_data ''c'') None])))"
        None
        "[make_comment ''a'' (node_data ''a''), make_comment ''b'' (node_data ''b''),
          make_comment ''c'' (node_data ''c'')]"]
  by (simp add: walker_defs walk_inv_def get_all_comments_auth_def get_all_comments_public_def
        initial_walk_def top_level_children_def expansion_things_def retry_delay_def
        token_events_def callback_returns_def expand_public.simps Let_def)

text \<open>
  Claim C8, as stated, fails where a reply was already seen: in the listing of the comment
  \<open>b\<close> followed by the comment \<open>a\<close> whose reply listing holds \<open>b\<close> again, the node \<open>a\<close> is not
  yet seen when the walker meets it, and the flat collection is \<open>b\<close>, then \<open>a\<close>: the comment
  \<open>b\<close> of the reply subtree of \<open>a\<close> comes before \<open>a\<close>.
\<close>

theorem parent_before_child_counterexample:
  "''a'' \<notin> fetched_ids (process_thing (T1 (node_data ''b'') None) empty_state) \<and>
   map id_c (comments (process_comment_listing
      [T1 (node_data ''b'') None, T1 (node_data ''a'') (Some [T1 (node_data ''b'') None])]
      empty_state)) = [''b'', ''a'']"
  by (simp add: walker_defs)

text \<open>
  Claim C8, amended. When the walker meets a comment node whose id is not yet in
  \<^verbatim>\<open>fetched_ids\<close>, the flat collection afterwards is the collection before, then the comment
  of the node, then the comments \<open>sub\<close> that the walk over its reply listing appends; what
  the rest of the listing appends comes after them. The comments of \<open>sub\<close> are those whose
  id was not seen before: a reply that was already seen is skipped and stays where it was.
\<close>

theorem parent_before_appended_replies:
  assumes "d_id d = Some i" and "i \<noteq> []" and "i \<notin> fetched_ids st"
  shows "\<exists>sub later.
      comments (process_replies replies
        (st\<lparr> fetched_ids := insert i (fetched_ids st),
             comments := comments st @ [make_comment i d] \<rparr>)) =
        comments st @ make_comment i d # sub \<and>
      comments (process_comment_listing (T1 d replies # children) st) =
        comments st @ make_comment i d # sub @ later \<and>
      (\<forall>c \<in> set sub. id_c c \<noteq> i \<and> id_c c \<notin> fetched_ids st)"
proof -
  let ?st1 = "st\<lparr> fetched_ids := insert i (fetched_ids st),
                   comments := comments st @ [make_comment i d] \<rparr>"
  from walk_appends(3) [of replies ?st1] obtain sub
    where sub: "comments (process_replies replies ?st1) = comments ?st1 @ sub"
    by blast
  have step: "process_thing (T1 d replies) st = process_replies replies ?st1"
    using assms by simp
  from walk_appends(1) [of children "process_replies replies ?st1"] obtain later
    where "comments (process_comment_listing children (process_replies replies ?st1)) =
           comments (process_replies replies ?st1) @ later"
    by blast
  with sub step
  have all: "comments (process_comment_listing (T1 d replies # children) st) =
             comments st @ make_comment i d # sub @ later"
    by simp
  have "\<forall>c \<in> set sub. id_c c \<notin> fetched_ids ?st1"
    using walk_new_unseen [OF sub] by blast
  then have "\<forall>c \<in> set sub. id_c c \<noteq> i \<and> id_c c \<notin> fetched_ids st"
    by auto
  with sub all show ?thesis by simp
qed

theorem parent_before_appended_replies_witness:
  "d_id (node_data ''a'') = Some ''a'' \<and> ''a'' \<noteq> [] \<and>
   ''a'' \<notin> fetched_ids (process_thing (T1 (node_data ''b'') None) empty_state) \<and>
   map id_c (comments (process_comment_listing
      (T1 (node_data ''a'')
          (Some [T1 (node_data ''b'') None, T1 (node_data ''c'') (Some [T1 (node_data ''d'') None])])
       # [T1 (node_data ''e'') None])
      (process_thing (T1 (node_data ''b'') None) empty_state))) =
     [''b'', ''a'', ''c'', ''d'', ''e'']"
  using parent_before_appended_replies
    [of "node_data ''a''" "''a''" "process_thing (T1 (node_data ''b'') None) empty_state"
        "Some [T1 (node_data ''b'') None, T1 (node_data ''c'') (Some [T1 (node_data ''d'') None])]"
        "[T1 (node_data ''e'') None]"]
  by (simp add: walker_defs)

section \<open>Properties of the request gate\<close>


lemma not_sleepable_raises:
  "\<not> sleepable h \<Longrightarrow>
   (\<exists>e. retry_delay h = Inl e) \<or> (\<exists>d e. retry_delay h = Inr d \<and> time_sleep d = Some e)"
  by (cases h) (auto simp: sleepable_def retry_delay_def time_sleep_def)











lemma request_auth_renewal_fails:
  "request_auth ((RenewalFails, r) # script) call =
     (Some (Inl AuthenticationError), [Authenticate], script)"
  by simp




section \<open>Properties of the expansion loops\<close>

lemma expand_public_hollow_step:
  assumes "more_ids st \<noteq> []" and "e < 20"
  shows "expand_public hollow_server cb e issued st =
         expand_public hollow_server cb e (issued @ [take 100 (more_ids st)])
           (st\<lparr> more_ids := drop 100 (more_ids st) \<rparr>)"
  using assms
  by (subst expand_public.simps) (simp add: hollow_server_def expansion_things_def Let_def)

lemma chunks_step:
  assumes "0 < (n::nat)"
  shows "Suc ((n - 100 + 99) div 100) = (n + 99) div 100"
proof (cases "n \<le> 100")
  case True
  then have "n - 100 = 0" by simp
  moreover have "(n + 99) div 100 = 1"
    using assms True by (intro div_nat_eqI) simp_all
  ultimately show ?thesis by simp
next
  case False
  then obtain m where n: "n = m + 100"
    by (metis add.commute le_add_diff_inverse nat_le_linear)
  have "(m + 100 + 99) div 100 = (m + 99 + 100) div 100" by (simp only: ac_simps)
  also have "\<dots> = Suc ((m + 99) div 100)" by (simp only: div_add_self2 Suc_eq_plus1)
  finally show ?thesis using n by simp
qed
lemma expand_public_hollow:
  assumes "e < 20"
  shows "length (more_ids st) = n \<Longrightarrow>
         length (fst (snd (expand_public hollow_server cb e issued st))) =
           length issued + (n + 99) div 100 \<and>
         comments (fst (expand_public hollow_server cb e issued st)) = comments st \<and>
         snd (snd (expand_public hollow_server cb e issued st)) = e"
proof (induction n arbitrary: st issued rule: less_induct)
  case (less n)
  show ?case
  proof (cases "more_ids st = []")
    case True
    then have "expand_public hollow_server cb e issued st = (st, issued, e)"
      by (simp add: expand_public_stop)
    with True less.prems show ?thesis by simp
  next
    case False
    let ?st1 = "st\<lparr> more_ids := drop 100 (more_ids st) \<rparr>"
    from False less.prems have pos: "0 < n" by auto
    have len: "length (more_ids ?st1) = n - 100" using less.prems by simp
    from pos have "n - 100 < n" by simp
    from less.IH [OF this len, of "issued @ [take 100 (more_ids st)]"]
      expand_public_hollow_step [OF False assms, of cb issued]
    have "length (fst (snd (expand_public hollow_server cb e issued st))) =
            length issued + Suc ((n - 100 + 99) div 100)"
      and rest: "comments (fst (expand_public hollow_server cb e issued st)) = comments st"
        "snd (snd (expand_public hollow_server cb e issued st)) = e"
      by simp_all
    then show ?thesis by (simp only: chunks_step [OF pos] simp_thms)
  qed
qed

lemma length_marker_ids: "length (marker_ids n) = n"
  by (simp add: marker_ids_def)

text \<open>
  The counter \<^verbatim>\<open>expansions_done\<close> never passes 20, and as long as no reply is of status 200
  with a body without \<^verbatim>\<open>json.data\<close>, the loop sends at most \<open>20 - expansions_done\<close> requests.
\<close>

lemma expand_public_counter:
  "e \<le> 20 \<Longrightarrow> snd (snd (expand_public server cb e issued st)) \<le> 20"
proof (induction server cb e issued st rule: expand_public.induct)
  case (1 server cb e issued st)
  show ?case
  proof (cases "more_ids st \<noteq> [] \<and> e < 20")
    case False
    then have "expand_public server cb e issued st = (st, issued, e)"
      by (rule expand_public_stop)
    with "1.prems" show ?thesis by simp
  next
    case True
    then show ?thesis
      using "1.IH" "1.prems"
      by (subst expand_public.simps) (auto simp: Let_def split: reply.splits option.splits)
  qed
qed

lemma expand_public_cap:
  "\<forall>k batch. \<not> hollow (server k batch) \<Longrightarrow> e \<le> 20 \<Longrightarrow>
   length (fst (snd (expand_public server cb e issued st))) \<le> length issued + (20 - e)"
proof (induction server cb e issued st rule: expand_public.induct)
  case (1 server cb e issued st)
  show ?case
  proof (cases "more_ids st \<noteq> [] \<and> e < 20")
    case False
    then have "expand_public server cb e issued st = (st, issued, e)"
      by (rule expand_public_stop)
    then show ?thesis by simp
  next
    case True
    from "1.prems"(1) have nh: "\<not> hollow (server (length issued) (take 100 (more_ids st)))"
      by blast
    show ?thesis
    proof (cases "server (length issued) (take 100 (more_ids st))")
      case NoReply
      with True show ?thesis
        by (subst expand_public.simps) (auto simp: Let_def)
    next
      case (Reply status_code h payload)
      show ?thesis
      proof (cases "status_code = 200 \<and> payload \<noteq> None")
        case False
        with True Reply show ?thesis
          by (subst expand_public.simps) (auto simp: Let_def split: option.splits)
      next
        case ok: True
        then obtain data where data: "payload = Some data" by auto
        with nh Reply ok obtain things where things: "expansion_things data = Some things"
          by (auto simp: hollow_def)
        let ?st2 = "process_comment_listing things (st\<lparr> more_ids := drop 100 (more_ids st) \<rparr>)"
        show ?thesis
        proof (cases "callback_returns cb (length (comments ?st2)) (length (more_ids ?st2))")
          case False
          with True Reply ok data things show ?thesis
            by (subst expand_public.simps) (auto simp: Let_def)
        next
          case cb_ok: True
          from True have "e + 1 \<le> 20" by simp
          with True Reply ok data things cb_ok
          have "length (fst (snd (expand_public server cb (e + 1)
                   (issued @ [take 100 (more_ids st)]) ?st2))) \<le>
                length (issued @ [take 100 (more_ids st)]) + (20 - (e + 1))"
            using "1.prems"(1) by (intro "1.IH"(2)) simp_all
          moreover have "expand_public server cb e issued st =
              expand_public server cb (e + 1) (issued @ [take 100 (more_ids st)]) ?st2"
            using True Reply ok data things cb_ok
            by (subst expand_public.simps) (simp add: Let_def)
          ultimately show ?thesis using True by auto
        qed
      qed
    qed
  qed
qed

text \<open>
  Claim C3 at the input of its scenario: 2500 pending marker ids, and a server that answers
  every expansion request with status 200 and a body without \<^verbatim>\<open>json.data\<close>. Such a reply
  neither counts as an expansion nor ends the loop: 25 batches are sent, not at most 20.
  The loop ends and returns the comments it has.
\<close>

theorem public_cap_exceeded:
  "length (fst (snd (expand_public hollow_server None 0 []
      (empty_state\<lparr> more_ids := marker_ids 2500 \<rparr>)))) = 25 \<and>
   comments (fst (expand_public hollow_server None 0 []
      (empty_state\<lparr> more_ids := marker_ids 2500 \<rparr>))) = [] \<and>
   snd (snd (expand_public hollow_server None 0 []
      (empty_state\<lparr> more_ids := marker_ids 2500 \<rparr>))) = 0"
  using expand_public_hollow [of 0 "empty_state\<lparr> more_ids := marker_ids 2500 \<rparr>" 2500 None "[]"]
  by (simp add: length_marker_ids empty_state_def)

lemma expand_auth_Cons:
  assumes "more_ids st \<noteq> []"
    and "request_auth script (morechildren_call sid (take 100 (more_ids st))) = (res, evs, rest)"
  shows "expand_auth (script # calls) sid (st, tr) =
     (case res of
        None \<Rightarrow> None
      | Some (Inl e) \<Rightarrow>
          expand_auth calls sid
            (st\<lparr> more_ids := drop 100 (more_ids st) \<rparr>,
             tr @ [Expanding (length (take 100 (more_ids st))) (length (drop 100 (more_ids st)))]
                @ evs @ [Warning e])
      | Some (Inr more_response) \<Rightarrow>
          (case expansion_things more_response of
             None \<Rightarrow>
               expand_auth calls sid
                 (st\<lparr> more_ids := drop 100 (more_ids st) \<rparr>,
                  tr @ [Expanding (length (take 100 (more_ids st))) (length (drop 100 (more_ids st)))]
                     @ evs)
           | Some things \<Rightarrow>
               expand_auth calls sid
                 (process_comment_listing things (st\<lparr> more_ids := drop 100 (more_ids st) \<rparr>),
                  tr @ [Expanding (length (take 100 (more_ids st))) (length (drop 100 (more_ids st)))]
                     @ evs)))"
  using assms by (simp add: Let_def split: option.splits sum.splits)

lemma expand_auth_trace:
  "expand_auth calls sid (st, tr) = Some (st', tr') \<Longrightarrow> \<exists>suffix. tr' = tr @ suffix"
proof (induction calls arbitrary: st tr)
  case Nil
  then show ?case by (simp split: if_splits)
next
  case (Cons script calls)
  show ?case
  proof (cases "more_ids st = []")
    case True
    with Cons.prems show ?thesis by simp
  next
    case False
    obtain res evs rest
      where req: "request_auth script (morechildren_call sid (take 100 (more_ids st))) = (res, evs, rest)"
      by (cases "request_auth script (morechildren_call sid (take 100 (more_ids st)))") auto
    from Cons.prems expand_auth_Cons [OF False req, of calls tr]
    obtain st1 tr1 where "expand_auth calls sid (st1, tr @ tr1) = Some (st', tr')"
      by (auto split: option.splits sum.splits)
    from Cons.IH [OF this] show ?thesis by auto
  qed
qed

lemma marker_ids_member: "k < n \<Longrightarrow> replicate (Suc k) CHR ''m'' \<in> set (marker_ids n)"
  by (auto simp: marker_ids_def)

lemma marker_ids_nonempty: "[] \<notin> set (marker_ids n)"
  by (auto simp: marker_ids_def)

lemma filter_marker_ids [simp]: "filter (\<lambda>child_id. child_id \<noteq> []) (marker_ids n) = marker_ids n"
  using marker_ids_nonempty [of n] by (simp add: filter_id_conv) metis

text \<open>
  Claim C4, as stated, fails for the ids of the failed batch. The listing names 101 marker
  ids; the call for the first hundred fails with status 500; the reply for the last id
  \<open>y\<close> holds the comment \<open>y\<close> with the reply \<open>m\<close> and a \<^verbatim>\<open>more\<close> node naming \<open>mm\<close>, two ids of
  the failed batch. The id \<open>mm\<close> is back in the queue and is requested in a third call, and
  the comments \<open>m\<close> and \<open>mm\<close> are in the result.
\<close>

theorem failed_batch_ids_return_counterexample:
  "''m'' \<in> set (take 100 (marker_ids 100 @ [''y''])) \<and>
   ''mm'' \<in> set (take 100 (marker_ids 100 @ [''y''])) \<and>
   fst (request_auth [(TokenValid, Reply 500 Absent None)]
      (morechildren_call ''s'' (take 100 (marker_ids 100 @ [''y''])))) = Some (Inl (ApiError 500)) \<and>
   map_option fst (get_all_comments_auth
     [[(TokenValid, Reply 200 Absent (Some (Listings [[], [More (marker_ids 100 @ [''y''])]])))],
      [(TokenValid, Reply 500 Absent None)],
      [(TokenValid, Reply 200 Absent (Some (MoreChildren (Some
          [T1 (node_data ''y'') (Some [T1 (node_data ''m'') None]), More [''mm'']]))))],
      [(TokenValid, Reply 200 Absent (Some (MoreChildren (Some [T1 (node_data ''mm'') None]))))]]
     ''s'') =
     Some (Inr [make_comment ''y'' (node_data ''y''), make_comment ''m'' (node_data ''m''),
                make_comment ''mm'' (node_data ''mm'')]) \<and>
   map_option (sent \<circ> snd) (get_all_comments_auth
     [[(TokenValid, Reply 200 Absent (Some (Listings [[], [More (marker_ids 100 @ [''y''])]])))],
      [(TokenValid, Reply 500 Absent None)],
      [(TokenValid, Reply 200 Absent (Some (MoreChildren (Some
          [T1 (node_data ''y'') (Some [T1 (node_data ''m'') None]), More [''mm'']]))))],
      [(TokenValid, Reply 200 Absent (Some (MoreChildren (Some [T1 (node_data ''mm'') None]))))]]
     ''s'') =
     Some [listing_call ''s'', morechildren_call ''s'' (marker_ids 100),
           morechildren_call ''s'' [''y''], morechildren_call ''s'' [''mm'']]"
proof -
  have lists: "take 100 (marker_ids 100 @ [''y'']) = marker_ids 100"
    by (simp add: length_marker_ids)
  have m: "''m'' \<in> set (marker_ids 100)"
    using marker_ids_member [of 0 100] by simp
  have "replicate (Suc 1) CHR ''m'' \<in> set (marker_ids 100)"
    by (rule marker_ids_member) simp
  then have mm: "''mm'' \<in> set (marker_ids 100)"
    by simp
  have failed: "fst (request_auth [(TokenValid, Reply 500 Absent None)]
      (morechildren_call ''s'' (marker_ids 100))) = Some (Inl (ApiError 500))"
    by (simp add: token_events_def)
  have returned: "map_option fst (get_all_comments_auth
     [[(TokenValid, Reply 200 Absent (Some (Listings [[], [More (marker_ids 100 @ [''y''])]])))],
      [(TokenValid, Reply 500 Absent None)],
      [(TokenValid, Reply 200 Absent (Some (MoreChildren (Some
          [T1 (node_data ''y'') (Some [T1 (node_data ''m'') None]), More [''mm'']]))))],
      [(TokenValid, Reply 200 Absent (Some (MoreChildren (Some [T1 (node_data ''mm'') None]))))]]
     ''s'') =
     Some (Inr [make_comment ''y'' (node_data ''y''), make_comment ''m'' (node_data ''m''),
                make_comment ''mm'' (node_data ''mm'')])"
    by (simp add: length_marker_ids walker_defs get_all_comments_auth_def initial_walk_def
          top_level_children_def expansion_things_def retry_delay_def token_events_def Let_def)
  have requested: "map_option (sent \<circ> snd) (get_all_comments_auth
     [[(TokenValid, Reply 200 Absent (Some (Listings [[], [More (marker_ids 100 @ [''y''])]])))],
      [(TokenValid, Reply 500 Absent None)],
      [(TokenValid, Reply 200 Absent (Some (MoreChildren (Some
          [T1 (node_data ''y'') (Some [T1 (node_data ''m'') None]), More [''mm'']]))))],
      [(TokenValid, Reply 200 Absent (Some (MoreChildren (Some [T1 (node_data ''mm'') None]))))]]
     ''s'') =
     Some [listing_call ''s'', morechildren_call ''s'' (marker_ids 100),
           morechildren_call ''s'' [''y''], morechildren_call ''s'' [''mm'']]"
    by (simp add: length_marker_ids walker_defs get_all_comments_auth_def initial_walk_def
          top_level_children_def expansion_things_def retry_delay_def token_events_def Let_def)
  from m mm failed returned requested show ?thesis
    unfolding lists by (intro conjI)
qed

lemma subset_chain: "A \<subseteq> B \<union> L \<Longrightarrow> B \<subseteq> C \<union> T \<Longrightarrow> A \<subseteq> C \<union> (T \<union> L)"
  by blast

lemma walk_comment_ids:
  "id_c ` set (comments (process_comment_listing children st)) \<subseteq>
     id_c ` set (comments st) \<union> listing_comment_ids children"
  "id_c ` set (comments (process_thing thing st)) \<subseteq>
     id_c ` set (comments st) \<union> thing_comment_ids thing"
  "id_c ` set (comments (process_replies replies st)) \<subseteq>
     id_c ` set (comments st) \<union> replies_comment_ids replies"
proof (induction children st and thing st and replies st
      rule: process_comment_listing_process_thing_process_replies.induct)
  case (1 st)
  show ?case by simp
next
  case (2 thing children st)
  from subset_chain [OF "2.IH"(2) "2.IH"(1)] show ?case by simp
next
  case (3 d replies st)
  show ?case
  proof (cases "d_id d")
    case None
    then show ?thesis by simp
  next
    case (Some i)
    show ?thesis
    proof (cases "i \<noteq> [] \<and> i \<notin> fetched_ids st")
      case False
      with Some show ?thesis by auto
    next
      case True
      let ?st1 = "st\<lparr> fetched_ids := insert i (fetched_ids st),
                       comments := comments st @ [make_comment i d] \<rparr>"
      have "id_c ` set (comments (process_replies replies ?st1)) \<subseteq>
            id_c ` set (comments ?st1) \<union> replies_comment_ids replies"
        using Some True by (intro "3.IH") simp_all
      moreover have "id_c ` set (comments ?st1) \<subseteq> id_c ` set (comments st) \<union> {i}"
        by (simp add: make_comment_def)
      ultimately have "id_c ` set (comments (process_replies replies ?st1)) \<subseteq>
            id_c ` set (comments st) \<union> ({i} \<union> replies_comment_ids replies)"
        by (rule subset_chain)
      with Some True show ?thesis by simp
    qed
  qed
next
  case (4 children_ids st)
  show ?case by simp
next
  case (5 st)
  show ?case by simp
next
  case (6 st)
  show ?case by simp
next
  case (7 reply_children st)
  then show ?case by simp
qed

lemma request_auth_payload:
  "request_auth script call = (Some (Inr j), evs, rest) \<Longrightarrow>
   \<exists>tc status_code h. (tc, Reply status_code h (Some j)) \<in> set script"
proof (induction script arbitrary: evs rest)
  case Nil
  then show ?case by simp
next
  case (Cons turn script)
  obtain tc r where turn: "turn = (tc, r)" by (cases turn)
  show ?case
  proof (cases r)
    case NoReply
    with Cons.prems turn show ?thesis by (simp split: if_splits)
  next
    case (Reply status_code h payload)
    show ?thesis
    proof (cases "tc \<noteq> RenewalFails \<and> status_code = 429 \<and>
                  (\<exists>d. retry_delay h = Inr d \<and> time_sleep d = None)")
      case True
      then obtain d where d: "retry_delay h = Inr d" "time_sleep d = None" by blast
      obtain res evs' rest' where run: "request_auth script call = (res, evs', rest')"
        by (cases "request_auth script call") auto
      with Cons.prems turn Reply True d have "res = Some (Inr j)" by simp
      with run Cons.IH obtain tc' s' h' where "(tc', Reply s' h' (Some j)) \<in> set script"
        by blast
      then show ?thesis by auto
    next
      case False
      with Cons.prems turn Reply have "payload = Some j"
        by (auto split: if_splits sum.splits option.splits)
      with turn Reply show ?thesis by auto
    qed
  qed
qed

lemma script_comment_ids:
  assumes "(tc, Reply status_code h (Some j)) \<in> set script"
    and "expansion_things j = Some things"
  shows "listing_comment_ids things \<subseteq> calls_comment_ids (script # calls)"
proof -
  have "reply_comment_ids (snd (tc, Reply status_code h (Some j))) = listing_comment_ids things"
    using assms(2) by (simp add: reply_comment_ids_def)
  with assms(1) show ?thesis
    unfolding calls_comment_ids_def by fastforce
qed

lemma calls_comment_ids_Cons:
  "calls_comment_ids calls \<subseteq> calls_comment_ids (script # calls)"
  by (auto simp: calls_comment_ids_def)

lemma expand_auth_comment_ids:
  "expand_auth calls sid (st, tr) = Some (st', tr') \<Longrightarrow>
   id_c ` set (comments st') \<subseteq> id_c ` set (comments st) \<union> calls_comment_ids calls"
proof (induction calls arbitrary: st tr)
  case Nil
  then show ?case by (simp split: if_splits)
next
  case (Cons script calls)
  show ?case
  proof (cases "more_ids st = []")
    case True
    with Cons.prems show ?thesis by simp
  next
    case False
    let ?st1 = "st\<lparr> more_ids := drop 100 (more_ids st) \<rparr>"
    obtain res evs rest
      where req: "request_auth script (morechildren_call sid (take 100 (more_ids st))) = (res, evs, rest)"
      by (cases "request_auth script (morechildren_call sid (take 100 (more_ids st)))") auto
    note unfold = expand_auth_Cons [OF False req, of calls tr]
    show ?thesis
    proof (cases res)
      case None
      with Cons.prems unfold show ?thesis by simp
    next
      case (Some outcome)
      show ?thesis
      proof (cases outcome)
        case (Inl e)
        with Cons.prems unfold Some obtain tr1
          where "expand_auth calls sid (?st1, tr1) = Some (st', tr')" by auto
        from Cons.IH [OF this] calls_comment_ids_Cons [of calls script] show ?thesis by auto
      next
        case (Inr more_response)
        show ?thesis
        proof (cases "expansion_things more_response")
          case None
          with Cons.prems unfold Some Inr obtain tr1
            where "expand_auth calls sid (?st1, tr1) = Some (st', tr')" by auto
          from Cons.IH [OF this] calls_comment_ids_Cons [of calls script] show ?thesis by auto
        next
          case things: (Some things)
          with Cons.prems unfold Some Inr obtain tr1
            where "expand_auth calls sid (process_comment_listing things ?st1, tr1) = Some (st', tr')"
            by auto
          from Cons.IH [OF this]
          have "id_c ` set (comments st') \<subseteq>
                id_c ` set (comments (process_comment_listing things ?st1)) \<union> calls_comment_ids calls" .
          moreover from walk_comment_ids(1) [of things ?st1]
          have "id_c ` set (comments (process_comment_listing things ?st1)) \<subseteq>
                id_c ` set (comments st) \<union> listing_comment_ids things"
            by simp
          moreover from req Some Inr request_auth_payload [of script _ more_response evs rest]
          obtain tc status_code h where "(tc, Reply status_code h (Some more_response)) \<in> set script"
            by blast
          from script_comment_ids [OF this things, of calls]
          have "listing_comment_ids things \<subseteq> calls_comment_ids (script # calls)" .
          ultimately show ?thesis
            using calls_comment_ids_Cons [of calls script] by blast
        qed
      qed
    qed
  qed
qed

text \<open>
  Claim C4, amended. When the call for a batch raises, the loop goes on with the rest of
  the queue: the batch has been taken off the queue, no comment is added for it, the
  warning is printed, and the run is from there on the run of the loop on that state. In
  every run that ends the warning is among the events, and a comment whose id is in the
  failed batch is in the result only if it was collected before or a later reply carries
  a comment node with that id.
\<close>

theorem failed_batch_dropped:
  assumes "more_ids st \<noteq> []"
    and "request_auth script (morechildren_call sid (take 100 (more_ids st))) =
           (Some (Inl e), evs, rest)"
  shows "expand_auth (script # calls) sid (st, tr) =
           expand_auth calls sid
             (st\<lparr> more_ids := drop 100 (more_ids st) \<rparr>,
              tr @ [Expanding (length (take 100 (more_ids st))) (length (drop 100 (more_ids st)))]
                 @ evs @ [Warning e]) \<and>
         (\<forall>st' tr'. expand_auth (script # calls) sid (st, tr) = Some (st', tr') \<longrightarrow>
            Warning e \<in> set tr' \<and>
            (\<forall>x \<in> set (take 100 (more_ids st)).
               x \<in> id_c ` set (comments st') \<longrightarrow>
               x \<in> id_c ` set (comments st) \<or> x \<in> calls_comment_ids calls))"
proof
  show step: "expand_auth (script # calls) sid (st, tr) =
           expand_auth calls sid
             (st\<lparr> more_ids := drop 100 (more_ids st) \<rparr>,
              tr @ [Expanding (length (take 100 (more_ids st))) (length (drop 100 (more_ids st)))]
                 @ evs @ [Warning e])"
    using expand_auth_Cons [OF assms, of calls tr] by simp
  show "\<forall>st' tr'. expand_auth (script # calls) sid (st, tr) = Some (st', tr') \<longrightarrow>
            Warning e \<in> set tr' \<and>
            (\<forall>x \<in> set (take 100 (more_ids st)).
               x \<in> id_c ` set (comments st') \<longrightarrow>
               x \<in> id_c ` set (comments st) \<or> x \<in> calls_comment_ids calls)"
  proof (intro allI impI conjI ballI)
    fix st' tr'
    assume "expand_auth (script # calls) sid (st, tr) = Some (st', tr')"
    with step have run: "expand_auth calls sid
             (st\<lparr> more_ids := drop 100 (more_ids st) \<rparr>,
              tr @ [Expanding (length (take 100 (more_ids st))) (length (drop 100 (more_ids st)))]
                 @ evs @ [Warning e]) = Some (st', tr')"
      by simp
    from expand_auth_trace [OF run] show "Warning e \<in> set tr'" by auto
    fix x
    assume "x \<in> id_c ` set (comments st')"
    with expand_auth_comment_ids [OF run]
    show "x \<in> id_c ` set (comments st) \<or> x \<in> calls_comment_ids calls"
      by auto
  qed
qed

theorem failed_batch_dropped_witness:
  "more_ids (empty_state\<lparr> more_ids := marker_ids 100 @ [''y''] \<rparr>) \<noteq> [] \<and>
   request_auth [(TokenValid, Reply 500 Absent None)]
       (morechildren_call ''s''
          (take 100 (more_ids (empty_state\<lparr> more_ids := marker_ids 100 @ [''y''] \<rparr>)))) =
     (Some (Inl (ApiError 500)), [RateLimit, Send (morechildren_call ''s'' (marker_ids 100))], []) \<and>
   expand_auth
       [[(TokenValid, Reply 500 Absent None)],
        [(TokenValid, Reply 200 Absent (Some (MoreChildren (Some [T1 (node_data ''y'') None]))))]]
       ''s'' (empty_state\<lparr> more_ids := marker_ids 100 @ [''y''] \<rparr>, []) =
     Some (\<lparr> comments = [make_comment ''y'' (node_data ''y'')], more_ids = [],
             fetched_ids = {''y''} \<rparr>,
           [Expanding 100 1, RateLimit, Send (morechildren_call ''s'' (marker_ids 100)),
            Warning (ApiError 500),
            Expanding 1 0, RateLimit, Send (morechildren_call ''s'' [''y''])])"
  using failed_batch_dropped
    [of "empty_state\<lparr> more_ids := marker_ids 100 @ [''y''] \<rparr>"
        "[(TokenValid, Reply 500 Absent None)]" "''s''"
        "ApiError 500" "[RateLimit, Send (morechildren_call ''s'' (marker_ids 100))]" "[]"
        "[[(TokenValid, Reply 200 Absent (Some (MoreChildren (Some [T1 (node_data ''y'') None]))))]]"
        "[]"]
  by (simp add: length_marker_ids walker_defs expansion_things_def retry_delay_def
        token_events_def Let_def)

end
